theory Spec2Isabelle
  imports Main "HOL-Library.Word"
begin

unbundle bit_operations_syntax

chapter \<open>The model\<close>

section \<open>Errors\<close>

text \<open>
  The exceptions the modelled functions throw, as values. \<^verbatim>\<open>MLSGPU_ASSERT(cond, E)\<close>
  throws \<^verbatim>\<open>E\<close> when \<^verbatim>\<open>cond\<close> is false. The plain \<^verbatim>\<open>assert\<close> of the C library is compiled
  in by every build variant of the wscript but \<^verbatim>\<open>release\<close>; the model checks it and gives
  \<open>AssertionFailed\<close> where it aborts. \<open>IosFailure\<close> is \<^verbatim>\<open>std::ios::failure\<close>.
\<close>

datatype error = RangeError | LengthError | OutOfRange | AssertionFailed | IosFailure

definition bind_e :: "error + 'a \<Rightarrow> ('a \<Rightarrow> error + 'b) \<Rightarrow> error + 'b" where
  "bind_e r f = (case r of Inl e \<Rightarrow> Inl e | Inr v \<Rightarrow> f v)"

section \<open>The blob index (splat_set_impl.h)\<close>

subsection \<open>Bit fields of a differential record\<close>

text \<open>
  The four helpers work on \<^verbatim>\<open>uint32_t\<close> and \<^verbatim>\<open>int32_t\<close>, both 32-bit words here; \<open>sint\<close>
  reads a word as the signed value. A conversion between the two C types keeps the bits.
  \<open>AssertionFailed\<close> marks a call whose asserted condition does not hold: a build with
  assertions aborts there, the \<^verbatim>\<open>release\<close> variant goes on with the value as it is.
\<close>

definition extractUnsigned :: "32 word \<Rightarrow> nat \<Rightarrow> nat \<Rightarrow> error + 32 word" where
  "extractUnsigned v lbit hbit =
     (if \<not> (lbit < hbit \<and> hbit \<le> 32) then Inl AssertionFailed
      else if \<not> (hbit - lbit < 32) then Inl AssertionFailed
      else Inr (drop_bit lbit v AND (push_bit (hbit - lbit) 1 - 1)))"

definition extractSigned :: "32 word \<Rightarrow> nat \<Rightarrow> nat \<Rightarrow> error + 32 word" where
  "extractSigned v lbit hbit =
     (let bits = hbit - lbit in
      bind_e (extractUnsigned v lbit hbit) (\<lambda>ans.
        Inr (if ans AND push_bit (bits - 1) 1 \<noteq> 0 then ans - push_bit bits 1 else ans)))"

definition insertUnsigned :: "32 word \<Rightarrow> 32 word \<Rightarrow> nat \<Rightarrow> nat \<Rightarrow> error + 32 word" where
  "insertUnsigned payload v lbit hbit =
     (if \<not> (lbit < hbit \<and> hbit \<le> 32) then Inl AssertionFailed
      else if \<not> (hbit - lbit < 32) then Inl AssertionFailed
      else if \<not> (v < push_bit (hbit - lbit) 1) then Inl AssertionFailed
      else Inr (payload OR push_bit lbit v))"

definition insertSigned :: "32 word \<Rightarrow> 32 word \<Rightarrow> nat \<Rightarrow> nat \<Rightarrow> error + 32 word" where
  "insertSigned payload v lbit hbit =
     (if \<not> (lbit < hbit \<and> hbit \<le> 32) then Inl AssertionFailed
      else if \<not> (hbit - lbit < 32) then Inl AssertionFailed
      else if \<not> (- (2 ^ (hbit - lbit)) \<le> sint v \<and> sint v < 2 ^ (hbit - lbit))
        then Inl AssertionFailed
      else Inr (payload OR
                push_bit lbit (if sint v < 0 then v + push_bit (hbit - lbit) 1 else v)))"

subsection \<open>Blobs\<close>

text \<open>
  \<^verbatim>\<open>BlobInfo\<close>: the ids \<^verbatim>\<open>firstSplat\<close> and \<^verbatim>\<open>lastSplat\<close> are \<^verbatim>\<open>splat_id\<close> (unsigned, 64 bits),
  \<^verbatim>\<open>lower\<close> and \<^verbatim>\<open>upper\<close> are arrays of three \<^verbatim>\<open>Grid::difference_type\<close> (grid.h is not among
  the sources; the decoder casts the stored words to \<^verbatim>\<open>int32_t\<close>, so it is the signed
  32-bit type). An array of three is a triple, read by \<open>nth3\<close>.
\<close>

type_synonym splat_id = "64 word"
type_synonym 'a array3 = "'a \<times> 'a \<times> 'a"

definition nth3 :: "'a array3 \<Rightarrow> nat \<Rightarrow> 'a" where
  "nth3 a i = (case a of (x, y, z) \<Rightarrow> if i = 0 then x else if i = 1 then y else z)"

definition tabulate3 :: "(nat \<Rightarrow> 'a) \<Rightarrow> 'a array3" where
  "tabulate3 f = (f 0, f 1, f 2)"

record BlobInfo =
  firstSplat :: splat_id
  lastSplat :: splat_id
  lower :: "32 word array3"
  upper :: "32 word array3"

subsection \<open>Writing a record: FastBlobSet::addBlob\<close>

text \<open>
  The loop over the axes that clears \<^verbatim>\<open>differential\<close>. The operands are \<^verbatim>\<open>int\<close> (32 bits):
  \<^verbatim>\<open>upper - lower\<close>, \<^verbatim>\<open>prevBlob.upper - 4\<close> and \<^verbatim>\<open>prevBlob.upper + 3\<close> are computed in that
  type and wrap around in the compiled code where the result does not fit (the language
  leaves signed overflow undefined); the comparisons are signed.
\<close>

definition axis_fits :: "BlobInfo \<Rightarrow> BlobInfo \<Rightarrow> nat \<Rightarrow> bool" where
  "axis_fits prevBlob curBlob i =
     (\<not> (sint (nth3 (upper curBlob) i - nth3 (lower curBlob) i) > 1
         \<or> sint (nth3 (lower curBlob) i) < sint (nth3 (upper prevBlob) i - 4)
         \<or> sint (nth3 (lower curBlob) i) > sint (nth3 (upper prevBlob) i + 3)))"

definition differential :: "32 word list \<Rightarrow> BlobInfo \<Rightarrow> BlobInfo \<Rightarrow> bool" where
  "differential blobData prevBlob curBlob =
     (blobData \<noteq> []
      \<and> lastSplat prevBlob = firstSplat curBlob
      \<and> lastSplat curBlob - firstSplat curBlob < push_bit 19 1
      \<and> axis_fits prevBlob curBlob 0 \<and> axis_fits prevBlob curBlob 1
      \<and> axis_fits prevBlob curBlob 2)"

text \<open>One round of the loop that fills the payload, for axis \<open>i\<close>.\<close>

definition insert_axis :: "BlobInfo \<Rightarrow> BlobInfo \<Rightarrow> nat \<Rightarrow> 32 word \<Rightarrow> error + 32 word" where
  "insert_axis prevBlob curBlob i payload =
     (let d = nth3 (lower curBlob) i - nth3 (upper prevBlob) i;
          s = nth3 (upper curBlob) i - nth3 (lower curBlob) i
      in bind_e (insertSigned payload d (i * 4) (i * 4 + 3)) (\<lambda>payload.
           insertUnsigned payload s (i * 4 + 3) (i * 4 + 4)))"

text \<open>
  \<^verbatim>\<open>addBlob(blobData, prevBlob, curBlob)\<close> appends to \<^verbatim>\<open>blobData\<close>, a vector of 32-bit words;
  the result is the vector after the call. The last \<^verbatim>\<open>insertUnsigned\<close> takes the 64-bit
  difference of the ids as a 32-bit argument, which keeps its low 32 bits.
\<close>

definition addBlob :: "32 word list \<Rightarrow> BlobInfo \<Rightarrow> BlobInfo \<Rightarrow> error + 32 word list" where
  "addBlob blobData prevBlob curBlob =
     (if differential blobData prevBlob curBlob then
        bind_e (insert_axis prevBlob curBlob 0 0x80000000) (\<lambda>payload.
        bind_e (insert_axis prevBlob curBlob 1 payload) (\<lambda>payload.
        bind_e (insert_axis prevBlob curBlob 2 payload) (\<lambda>payload.
        bind_e (insertUnsigned payload (ucast (lastSplat curBlob - firstSplat curBlob)) 12 31)
          (\<lambda>payload. Inr (blobData @ [payload])))))
      else
        Inr (blobData @
          [ucast (drop_bit 32 (firstSplat curBlob)), ucast (firstSplat curBlob AND 0xFFFFFFFF),
           ucast (drop_bit 32 (lastSplat curBlob)), ucast (lastSplat curBlob AND 0xFFFFFFFF),
           nth3 (lower curBlob) 0, nth3 (upper curBlob) 0,
           nth3 (lower curBlob) 1, nth3 (upper curBlob) 1,
           nth3 (lower curBlob) 2, nth3 (upper curBlob) 2]))"

text \<open>
  The calls that \<^verbatim>\<open>computeBlobsRange\<close> makes for the blobs of one thread's slice of a buffer:
  \<^verbatim>\<open>addBlob(threadBlobData, prevBlob, curBlob)\<close>, each followed by \<^verbatim>\<open>prevBlob = curBlob\<close>. The
  vector starts empty, and \<^verbatim>\<open>prevBlob\<close> is not initialised before the first call.
\<close>

fun add_blobs :: "32 word list \<Rightarrow> BlobInfo \<Rightarrow> BlobInfo list \<Rightarrow> error + 32 word list" where
  "add_blobs blobData prevBlob [] = Inr blobData"
| "add_blobs blobData prevBlob (curBlob # rest) =
     bind_e (addBlob blobData prevBlob curBlob) (\<lambda>blobData. add_blobs blobData curBlob rest)"

subsection \<open>Reading records back: FastBlobSet::MyBlobStream::refill\<close>

text \<open>
  A blob file has its number of blobs and its contents, here the 32-bit words it was
  written from (the writer dumps the vector of words, the reader reads words back). The
  stream has the current blob, the number of records left in the open file, the index of
  the current file and the file stream: \<open>None\<close> when closed, otherwise the words not
  read yet.
\<close>

record BlobFile =
  nBlobs :: nat
  contents :: "32 word list"

record MyBlobStream =
  curBlob :: BlobInfo
  remaining :: nat
  curFile :: nat
  stream :: "32 word list option"

text \<open>
  The loop \<^verbatim>\<open>while (remaining == 0)\<close>. The flag returned is true when the loop has left the
  function through \<^verbatim>\<open>return\<close>, at the end of the files, with the empty blob
  \<open>(firstSplat, lastSplat) = (1, 0)\<close>.
\<close>

function next_file :: "BlobFile list \<Rightarrow> MyBlobStream \<Rightarrow> bool \<times> MyBlobStream" where
  "next_file files st =
     (if remaining st = 0 then
        (let st1 = (if stream st \<noteq> None then st\<lparr>curFile := curFile st + 1, stream := None\<rparr>
                    else st)
         in if length files \<le> curFile st1 then
              (True, st1\<lparr>curBlob := (curBlob st1)\<lparr>firstSplat := 1, lastSplat := 0\<rparr>\<rparr>)
            else next_file files
                   (st1\<lparr>remaining := nBlobs (files ! curFile st1),
                        stream := Some (contents (files ! curFile st1))\<rparr>))
      else (False, st))"
  by pat_completeness auto
termination
  by (relation "measure (\<lambda>(files, st).
        2 * (length files - curFile st) + (if stream st = None then 1 else 0))")
     (auto simp: Let_def)

declare next_file.simps [simp del]

text \<open>
  Decoding one record from the words \<open>ws\<close> left in the file, with the current blob \<open>b\<close>.
  A read past the end of the file raises \<^verbatim>\<open>std::ios::failure\<close>. In a differential record
  each \<^verbatim>\<open>lower[i]\<close> is computed from the \<^verbatim>\<open>upper[i]\<close> of the blob before, then \<^verbatim>\<open>upper[i]\<close>
  from the new \<^verbatim>\<open>lower[i]\<close>; the additions are those of \<^verbatim>\<open>uint32_t\<close> and of \<^verbatim>\<open>uint64_t\<close>.
\<close>

definition decode_axis :: "32 word \<Rightarrow> BlobInfo \<Rightarrow> nat \<Rightarrow> error + 32 word \<times> 32 word" where
  "decode_axis d b i =
     bind_e (extractSigned d (i * 4) (i * 4 + 3)) (\<lambda>delta.
     bind_e (extractUnsigned d (i * 4 + 3) (i * 4 + 4)) (\<lambda>s.
       let lo = nth3 (upper b) i + delta in Inr (lo, lo + s)))"

definition read_record :: "BlobInfo \<Rightarrow> 32 word list \<Rightarrow> error + BlobInfo \<times> 32 word list" where
  "read_record b ws =
     (case ws of
        [] \<Rightarrow> Inl IosFailure
      | d # ws1 \<Rightarrow>
          if d AND 0x80000000 \<noteq> 0 then
            bind_e (decode_axis d b 0) (\<lambda>a0.
            bind_e (decode_axis d b 1) (\<lambda>a1.
            bind_e (decode_axis d b 2) (\<lambda>a2.
            bind_e (extractUnsigned d 12 31) (\<lambda>n.
              Inr (\<lparr>firstSplat = lastSplat b, lastSplat = lastSplat b + scast n,
                     lower = (fst a0, fst a1, fst a2), upper = (snd a0, snd a1, snd a2)\<rparr>,
                   ws1)))))
          else if length ws1 < 9 then Inl IosFailure
          else
            Inr (\<lparr>firstSplat = push_bit 32 (ucast d) OR ucast (ws1 ! 0),
                   lastSplat = push_bit 32 (ucast (ws1 ! 1)) OR ucast (ws1 ! 2),
                   lower = (ws1 ! 3, ws1 ! 5, ws1 ! 7),
                   upper = (ws1 ! 4, ws1 ! 6, ws1 ! 8)\<rparr>,
                 drop 9 ws1))"

text \<open>
  \<^verbatim>\<open>refill\<close>: the loop, then one record from the open file, then \<^verbatim>\<open>remaining--\<close>. The loop
  leaves with \<open>remaining \<noteq> 0\<close> only with a file open, unless the stream was handed over
  closed with records announced; the read on a closed stream is then a failure.
\<close>

definition refill :: "BlobFile list \<Rightarrow> MyBlobStream \<Rightarrow> error + MyBlobStream" where
  "refill files st =
     (case next_file files st of
        (True, st') \<Rightarrow> Inr st'
      | (False, st') \<Rightarrow>
          (case stream st' of
             None \<Rightarrow> Inl IosFailure
           | Some ws \<Rightarrow>
               bind_e (read_record (curBlob st') ws) (\<lambda>(b, ws').
                 Inr (st'\<lparr>curBlob := b, remaining := remaining st' - 1, stream := Some ws'\<rparr>))))"

text \<open>
  The constructor of the stream sets \<^verbatim>\<open>remaining(0)\<close>, \<^verbatim>\<open>curFile(0)\<close>, leaves the file stream
  closed and the current blob uninitialised (\<open>b0\<close>), and calls \<^verbatim>\<open>refill\<close>; \<^verbatim>\<open>operator++\<close>
  calls \<^verbatim>\<open>refill\<close> again. \<open>read_blobs\<close> collects the current blob after each of \<open>n\<close>
  successive calls of \<^verbatim>\<open>refill\<close>.
\<close>

definition initial_stream :: "BlobInfo \<Rightarrow> MyBlobStream" where
  "initial_stream b0 = \<lparr>curBlob = b0, remaining = 0, curFile = 0, stream = None\<rparr>"

fun read_blobs :: "BlobFile list \<Rightarrow> MyBlobStream \<Rightarrow> nat \<Rightarrow> error + BlobInfo list \<times> MyBlobStream" where
  "read_blobs files st 0 = Inr ([], st)"
| "read_blobs files st (Suc n) =
     bind_e (refill files st) (\<lambda>st'.
     bind_e (read_blobs files st' n) (\<lambda>(bs, st'').
       Inr (curBlob st' # bs, st'')))"

text \<open>
  The contents of a blob file: the vectors of the threads, each written from an empty
  vector and with its own uninitialised \<^verbatim>\<open>prevBlob\<close>, appended in the order of the slices
  (\<^verbatim>\<open>out.write\<close> in the ordered section); \<^verbatim>\<open>bf.nBlobs\<close> is the number of blobs of all
  slices. A slice is given by its \<^verbatim>\<open>prevBlob\<close> and its blobs.
\<close>

fun write_file :: "(BlobInfo \<times> BlobInfo list) list \<Rightarrow> error + 32 word list" where
  "write_file [] = Inr []"
| "write_file ((prevBlob, bs) # slices) =
     bind_e (add_blobs [] prevBlob bs) (\<lambda>threadBlobData.
     bind_e (write_file slices) (\<lambda>later. Inr (threadBlobData @ later)))"

definition blobs_of :: "(BlobInfo \<times> BlobInfo list) list \<Rightarrow> BlobInfo list" where
  "blobs_of slices = concat (map snd slices)"

subsection \<open>The legality conditions, in the words of the specification\<close>

text \<open>
  A differential record is legal when a record was written before, the box has size 1 or
  2 on every axis (\<open>upper - lower\<close> is 0 or 1), every \<open>lower[i]\<close> lies in
  \<open>[prev.upper[i] - 4, prev.upper[i] + 3]\<close>, the blob has fewer than \<open>2 ^ 19\<close> splats and
  starts where the blob before ends. The differences and sums are those of the integers.
\<close>

definition legal_axis :: "BlobInfo \<Rightarrow> BlobInfo \<Rightarrow> nat \<Rightarrow> bool" where
  "legal_axis prev cur i =
     ((sint (nth3 (upper cur) i) - sint (nth3 (lower cur) i) = 0
        \<or> sint (nth3 (upper cur) i) - sint (nth3 (lower cur) i) = 1)
      \<and> sint (nth3 (upper prev) i) - 4 \<le> sint (nth3 (lower cur) i)
      \<and> sint (nth3 (lower cur) i) \<le> sint (nth3 (upper prev) i) + 3)"

definition legal :: "32 word list \<Rightarrow> BlobInfo \<Rightarrow> BlobInfo \<Rightarrow> bool" where
  "legal blobData prev cur =
     (blobData \<noteq> []
      \<and> legal_axis prev cur 0 \<and> legal_axis prev cur 1
      \<and> legal_axis prev cur 2
      \<and> uint (lastSplat cur) - uint (firstSplat cur) < 2 ^ 19
      \<and> firstSplat cur = lastSplat prev)"

text \<open>
  A blob covers the buckets from \<open>lower\<close> to \<open>upper\<close>, both inclusive: \<open>lower[i] \<le> upper[i]\<close>
  on every axis.
\<close>

definition well_formed_box :: "BlobInfo \<Rightarrow> bool" where
  "well_formed_box b =
     (sint (nth3 (lower b) 0) \<le> sint (nth3 (upper b) 0)
      \<and> sint (nth3 (lower b) 1) \<le> sint (nth3 (upper b) 1)
      \<and> sint (nth3 (lower b) 2) \<le> sint (nth3 (upper b) 2))"

text \<open>
  \<open>in_int k\<close>: the integer \<open>k\<close> is a value of the 32-bit \<^verbatim>\<open>int\<close>. \<open>no_overflow prev cur\<close>: on
  every axis the three results that the test of \<^verbatim>\<open>addBlob\<close> computes, \<open>upper - lower\<close>,
  \<open>prev.upper - 4\<close> and \<open>prev.upper + 3\<close>, are values of \<^verbatim>\<open>int\<close>. \<open>inclusive_box b\<close>: the box
  is inclusive and \<open>upper - lower\<close> is a value of \<^verbatim>\<open>int\<close> on every axis.
\<close>

definition in_int :: "int \<Rightarrow> bool" where
  "in_int k = (- 2147483648 \<le> k \<and> k \<le> 2147483647)"

definition no_overflow_axis :: "BlobInfo \<Rightarrow> BlobInfo \<Rightarrow> nat \<Rightarrow> bool" where
  "no_overflow_axis prev cur i =
     (in_int (sint (nth3 (upper cur) i) - sint (nth3 (lower cur) i))
      \<and> in_int (sint (nth3 (upper prev) i) - 4)
      \<and> in_int (sint (nth3 (upper prev) i) + 3))"

definition no_overflow :: "BlobInfo \<Rightarrow> BlobInfo \<Rightarrow> bool" where
  "no_overflow prev cur =
     (no_overflow_axis prev cur 0 \<and> no_overflow_axis prev cur 1 \<and> no_overflow_axis prev cur 2)"

definition inclusive_box :: "BlobInfo \<Rightarrow> bool" where
  "inclusive_box b =
     (well_formed_box b
      \<and> in_int (sint (nth3 (upper b) 0) - sint (nth3 (lower b) 0))
      \<and> in_int (sint (nth3 (upper b) 1) - sint (nth3 (lower b) 1))
      \<and> in_int (sint (nth3 (upper b) 2) - sint (nth3 (lower b) 2)))"

subsection \<open>Notions used in the proofs about records\<close>

text \<open>
  \<open>bits_at l n w\<close> is the field of \<open>n\<close> bits of \<open>w\<close> from bit \<open>l\<close>, \<open>fits n v\<close> says that
  \<open>v\<close> has no bit from \<open>n\<close> upwards; \<open>enc3\<close> and \<open>dec3\<close> are the two's complement on
  three bits that \<^verbatim>\<open>insertSigned\<close> and \<^verbatim>\<open>extractSigned\<close> compute; \<open>payload_of\<close> and
  \<open>full_record\<close> are the words of a differential and of a full record.
\<close>

definition bits_at :: "nat \<Rightarrow> nat \<Rightarrow> 32 word \<Rightarrow> 32 word" where
  "bits_at l n w = take_bit n (drop_bit l w)"

definition fits :: "nat \<Rightarrow> 32 word \<Rightarrow> bool" where
  "fits n v = (take_bit n v = v)"

definition enc3 :: "32 word \<Rightarrow> 32 word" where
  "enc3 d = (if sint d < 0 then d + 8 else d)"

definition dec3 :: "32 word \<Rightarrow> 32 word" where
  "dec3 a = (if a AND 4 \<noteq> 0 then a - 8 else a)"

definition payload_of :: "BlobInfo \<Rightarrow> BlobInfo \<Rightarrow> 32 word" where
  "payload_of prev cur =
     (((((((push_bit 31 1
       OR push_bit 0 (enc3 (nth3 (lower cur) 0 - nth3 (upper prev) 0)))
       OR push_bit 3 (nth3 (upper cur) 0 - nth3 (lower cur) 0))
       OR push_bit 4 (enc3 (nth3 (lower cur) 1 - nth3 (upper prev) 1)))
       OR push_bit 7 (nth3 (upper cur) 1 - nth3 (lower cur) 1))
       OR push_bit 8 (enc3 (nth3 (lower cur) 2 - nth3 (upper prev) 2)))
       OR push_bit 11 (nth3 (upper cur) 2 - nth3 (lower cur) 2))
       OR push_bit 12 (ucast (lastSplat cur - firstSplat cur)))"

definition sizes_ok :: "BlobInfo \<Rightarrow> bool" where
  "sizes_ok cur = (\<forall>i \<in> {0, 1, 2}. nth3 (upper cur) i - nth3 (lower cur) i = 0
                       \<or> nth3 (upper cur) i - nth3 (lower cur) i = 1)"

definition full_record :: "BlobInfo \<Rightarrow> 32 word list" where
  "full_record cur =
     [ucast (drop_bit 32 (firstSplat cur)), ucast (firstSplat cur AND 0xFFFFFFFF),
      ucast (drop_bit 32 (lastSplat cur)), ucast (lastSplat cur AND 0xFFFFFFFF),
      nth3 (lower cur) 0, nth3 (upper cur) 0,
      nth3 (lower cur) 1, nth3 (upper cur) 1,
      nth3 (lower cur) 2, nth3 (upper cur) 2]"

section \<open>Morton codes (SplatTree::makeCode)\<close>

text \<open>
  \<^verbatim>\<open>code_type\<close> is declared in splat_tree.h, which is not among the sources at hand; it is
  taken as the unsigned 32-bit type, the width of the \<^verbatim>\<open>unsigned int digit\<close> that the loop
  shifts into it. \<open>makeCode_loop\<close> is the \<^verbatim>\<open>while (x || y || z)\<close> loop on the state
  \<open>(x, y, z, shift, ans)\<close>; it returns the final \<open>shift\<close> and \<open>ans\<close>.
\<close>

type_synonym code_type = "32 word"

function makeCode_loop :: "code_type \<Rightarrow> code_type \<Rightarrow> code_type \<Rightarrow> nat \<Rightarrow> code_type
    \<Rightarrow> nat \<times> code_type" where
  "makeCode_loop x y z shift ans =
     (if x \<noteq> 0 \<or> y \<noteq> 0 \<or> z \<noteq> 0 then
        (let digit = (x AND 1) + push_bit 1 (y AND 1) + push_bit 2 (z AND 1)
         in makeCode_loop (drop_bit 1 x) (drop_bit 1 y) (drop_bit 1 z) (shift + 3)
              (ans + push_bit shift digit))
      else (shift, ans))"
  by pat_completeness auto
termination
proof (relation "measure (\<lambda>(x, y, z, shift, ans). unat x + unat y + unat z)", goal_cases)
  case 1
  show ?case by simp
next
  case (2 x y z shift ans digit)
  have half: "\<And>w :: code_type. unat (drop_bit 1 w) = unat w div 2"
    by (simp add: drop_bit_eq_div unat_div)
  have le: "\<And>w :: code_type. unat (drop_bit 1 w) \<le> unat w"
    unfolding half by simp
  have lt: "\<And>w :: code_type. w \<noteq> 0 \<Longrightarrow> unat (drop_bit 1 w) < unat w"
    unfolding half by (simp add: unat_gt_0)
  from 2 consider "x \<noteq> 0" | "y \<noteq> 0" | "z \<noteq> 0" by blast
  then show ?case
  proof cases
    case 1
    from lt [OF this] le [of y] le [of z] show ?thesis by simp
  next
    case 2
    from lt [OF this] le [of x] le [of z] show ?thesis by simp
  next
    case 3
    from lt [OF this] le [of x] le [of y] show ?thesis by simp
  qed
qed

declare makeCode_loop.simps [simp del]

text \<open>
  After the loop, \<^verbatim>\<open>MLSGPU_ASSERT(shift < std::numeric_limits<code_type>::digits,
  std::range_error)\<close> throws unless the final shift is below the 32 bits of the code.
\<close>

definition makeCode :: "code_type \<Rightarrow> code_type \<Rightarrow> code_type \<Rightarrow> error + code_type" where
  "makeCode x y z =
     (case makeCode_loop x y z 0 0 of
        (shift, ans) \<Rightarrow> if shift < 32 then Inr ans else Inl RangeError)"

text \<open>
  The bit-interleaving map on natural numbers, for \<open>L\<close> bits per coordinate: the lowest
  bits of \<open>x\<close>, \<open>y\<close> and \<open>z\<close> form the lowest group of three bits (\<open>x\<close> lowest, \<open>z\<close>
  highest), and so on upwards. It is what the claim compares \<^verbatim>\<open>makeCode\<close> with.
\<close>

fun interleave3 :: "nat \<Rightarrow> nat \<Rightarrow> nat \<Rightarrow> nat \<Rightarrow> nat" where
  "interleave3 0 x y z = 0"
| "interleave3 (Suc L) x y z = (x mod 2 + 2 * (y mod 2) + 4 * (z mod 2)) + 8 * interleave3 L (x div 2) (y div 2) (z div 2)"

section \<open>Range coalescing (bucket.cpp)\<close>

text \<open>
  \<^verbatim>\<open>SplatRange\<close> names a contiguous run of splats of one scan. Its integer types are
  declared in a header that is not part of the sources at hand; the constructor in
  bucket.cpp fixes their roles (\<^verbatim>\<open>scan_type\<close>, \<^verbatim>\<open>size_type\<close>, \<^verbatim>\<open>index_type\<close>), and the
  widths are those of the \<^verbatim>\<open>Range\<close> structure of bucket.h: a 32-bit size and a 64-bit
  splat index. The field \<^verbatim>\<open>size\<close> is called \<open>size_r\<close> here.
\<close>

type_synonym scan_type = "32 word"
type_synonym size_type = "32 word"
type_synonym index_type = "64 word"

record SplatRange =
  scan :: scan_type
  size_r :: size_type
  start :: index_type

text \<open>
  \<^verbatim>\<open>SplatRange::append(scan, splat)\<close>: the result is the returned flag and the range
  after the call. The subtraction \<^verbatim>\<open>splat - start\<close> is done in the 64-bit index type, the
  32-bit size being widened for the comparisons.
\<close>

definition SplatRange_append :: "SplatRange \<Rightarrow> scan_type \<Rightarrow> index_type \<Rightarrow> bool \<times> SplatRange" where
  "SplatRange_append r scan' splat =
     (if size_r r = 0 then
        (True, r\<lparr>scan := scan', size_r := 1, start := splat\<rparr>)
      else if scan r = scan' \<and> start r \<le> splat \<and> splat - start r \<le> ucast (size_r r) then
        (if splat - start r = ucast (size_r r) then
           (if size_r r = - 1 then (False, r)
            else (True, r\<lparr>size_r := size_r r + 1\<rparr>))
         else (True, r))
      else (False, r))"

section \<open>Reading a splat stream (SequenceSet::MySplatStream::read)\<close>

text \<open>
  The stream walks a list of id ranges \<open>(first, second)\<close> over the splats of its owner,
  \<^verbatim>\<open>[ownerFirst, ownerLast)\<close>, here the list \<open>owner\<close>. Its state is the position
  \<^verbatim>\<open>curRange\<close>, modelled by the ranges from \<^verbatim>\<open>curRange\<close> to \<^verbatim>\<open>lastRange\<close> that are left, and
  the id \<^verbatim>\<open>cur\<close>. The splat type and \<^verbatim>\<open>Splat::isFinite\<close> (splat.h is not among the sources)
  are parameters. The buffers \<^verbatim>\<open>splats\<close> and \<^verbatim>\<open>splatIds\<close> are modelled by the list of the
  pairs (splat, id) written, in order.

  The counters are unsigned machine integers that the function only increments below a
  bound (\<^verbatim>\<open>cur < end\<close>) and decrements above zero (\<^verbatim>\<open>count > 0\<close>); they never wrap and are
  natural numbers here.

  \<open>read_inner\<close> is the inner loop \<^verbatim>\<open>while (cur < end && count > 0)\<close>.
\<close>

function read_inner :: "'splat list \<Rightarrow> ('splat \<Rightarrow> bool) \<Rightarrow> nat \<Rightarrow> nat \<Rightarrow> nat
    \<Rightarrow> ('splat \<times> nat) list \<Rightarrow> nat \<times> nat \<times> ('splat \<times> nat) list" where
  "read_inner owner isFinite end cur count out =
     (if cur < end \<and> count > 0 then
        (if isFinite (owner ! cur)
         then read_inner owner isFinite end (cur + 1) (count - 1) (out @ [(owner ! cur, cur)])
         else read_inner owner isFinite end (cur + 1) count out)
      else (cur, count, out))"
  by pat_completeness auto
termination
  by (relation "measure (\<lambda>(owner, isFinite, end, cur, count, out). end - cur)") auto

declare read_inner.simps [simp del]

lemma read_inner_exit:
  "read_inner owner isFinite end cur count out = (cur', count', out')
   \<Longrightarrow> count' \<le> count \<and> (end \<le> cur' \<or> count' = 0)"
proof (induction owner isFinite "end" cur count out rule: read_inner.induct)
  case (1 owner isFinite "end" cur count out)
  show ?case
  proof (cases "cur < end \<and> count > 0")
    case False
    with "1.prems" show ?thesis by (auto simp: read_inner.simps [of owner isFinite "end" cur count out])
  next
    case True
    show ?thesis
    proof (cases "isFinite (owner ! cur)")
      case fin: True
      with True "1.prems"
      have "read_inner owner isFinite end (cur + 1) (count - 1) (out @ [(owner ! cur, cur)])
              = (cur', count', out')"
        by (simp add: read_inner.simps [of owner isFinite "end" cur count out])
      from "1.IH"(1) [OF True fin this] show ?thesis by auto
    next
      case nfin: False
      with True "1.prems"
      have "read_inner owner isFinite end (cur + 1) count out = (cur', count', out')"
        by (simp add: read_inner.simps [of owner isFinite "end" cur count out])
      from "1.IH"(2) [OF True nfin this] show ?thesis by auto
    qed
  qed
qed

text \<open>
  The outer loop \<^verbatim>\<open>while (count > 0 && curRange != lastRange)\<close>. The end of the current
  range is clipped to the size of the owner; when the range is exhausted the stream
  moves to the next one and, if there is one, to its first id. The result is the state
  after the loop, the remaining \<^verbatim>\<open>count\<close> and the pairs written.
\<close>

function read_loop :: "'splat list \<Rightarrow> ('splat \<Rightarrow> bool) \<Rightarrow> (nat \<times> nat) list \<Rightarrow> nat \<Rightarrow> nat
    \<Rightarrow> ('splat \<times> nat) list \<Rightarrow> (nat \<times> nat) list \<times> nat \<times> nat \<times> ('splat \<times> nat) list" where
  "read_loop owner isFinite rs cur count out =
     (if count > 0 \<and> rs \<noteq> [] then
        (let end = (if length owner < snd (hd rs) then length owner else snd (hd rs));
             r = read_inner owner isFinite end cur count out
         in if end \<le> fst r then
              read_loop owner isFinite (tl rs)
                (if tl rs \<noteq> [] then fst (hd (tl rs)) else fst r) (fst (snd r)) (snd (snd r))
            else read_loop owner isFinite rs (fst r) (fst (snd r)) (snd (snd r)))
      else (rs, cur, count, out))"
  by pat_completeness auto
termination
proof (relation "measures [\<lambda>(owner, isFinite, rs, cur, count, out). length rs,
                           \<lambda>(owner, isFinite, rs, cur, count, out). count]", goal_cases)
  case 1
  show ?case by simp
next
  case (2 owner isFinite rs cur count out e r)
  then show ?case by (cases rs) auto
next
  case (3 owner isFinite rs cur count out e r)
  from 3 have "read_inner owner isFinite e cur count out = (fst r, fst (snd r), snd (snd r))"
    by simp
  from read_inner_exit [OF this] 3 have "fst (snd r) = 0" by auto
  with 3 show ?case by simp
qed

declare read_loop.simps [simp del]

text \<open>
  \<^verbatim>\<open>read(splats, splatIds, count)\<close> returns \<^verbatim>\<open>oldCount - count\<close>; the model returns it with
  the pairs written and the state of the stream after the call.
\<close>

definition read :: "'splat list \<Rightarrow> ('splat \<Rightarrow> bool) \<Rightarrow> (nat \<times> nat) list \<times> nat \<Rightarrow> nat
    \<Rightarrow> nat \<times> ('splat \<times> nat) list \<times> ((nat \<times> nat) list \<times> nat)" where
  "read owner isFinite st count =
     (case read_loop owner isFinite (fst st) (snd st) count [] of
        (rs', cur', count', out') \<Rightarrow> (count - count', out', (rs', cur')))"

section \<open>Splat accounting of a device worker group (workers.cpp)\<close>

text \<open>
  The constructor of \<^verbatim>\<open>DeviceWorkerGroup\<close> puts \<open>numWorkers + spare\<close> work items in the item
  pool, each with room for \<open>maxItemSplats\<close> splats, and sets \<^verbatim>\<open>unallocated_\<close> to
  \<open>maxItemSplats * items\<close>, a \<^verbatim>\<open>size_t\<close> (64 bits).
\<close>

record DeviceConfig =
  numWorkers :: nat
  spare :: nat
  maxItemSplats :: nat

definition items :: "DeviceConfig \<Rightarrow> nat" where
  "items cfg = numWorkers cfg + spare cfg"

definition capacity :: "DeviceConfig \<Rightarrow> nat" where
  "capacity cfg = maxItemSplats cfg * items cfg"

text \<open>
  The state of the copy worker and of the device group it feeds. A sub-item is
  represented by its \<^verbatim>\<open>numSplats\<close>. \<open>bufferedItems\<close> and \<open>bufferedSplats\<close> are those of the copy
  worker; \<open>itemPool\<close> counts the free work items; \<open>inflight\<close> holds, for every work item
  handed to the device, the sub-items that its worker has not completed yet.
\<close>

record DeviceState =
  unallocated :: "64 word"
  itemPool :: nat
  inflight :: "nat list list"
  bufferedItems :: "nat list"
  bufferedSplats :: nat

definition initial_device :: "DeviceConfig \<Rightarrow> DeviceState" where
  "initial_device cfg =
     \<lparr>unallocated = of_nat (maxItemSplats cfg * items cfg), itemPool = items cfg,
      inflight = [], bufferedItems = [], bufferedSplats = 0\<rparr>"

text \<open>\<^verbatim>\<open>DeviceWorkerGroup::get\<close>: pop an item from the pool, then \<^verbatim>\<open>unallocated_ -= numSplats\<close>.\<close>

definition get :: "DeviceState \<Rightarrow> nat \<Rightarrow> DeviceState" where
  "get s numSplats =
     s\<lparr>itemPool := itemPool s - 1, unallocated := unallocated s - of_nat numSplats\<rparr>"

text \<open>
  The steps, each atomic under the mutexes of the source.
  \<^item> \<open>Copy\<close>: \<^verbatim>\<open>CopyGroupBase::Worker::operator()\<close> on a work item of \<open>n\<close> splats that fits the
    pinned buffer, whose size is \<open>maxItemSplats\<close>; a work item never has more splats than
    the buffer holds. When it does not fit behind what is buffered, the worker flushes
    first, which is the step \<open>Flush\<close> before this one.
  \<^item> \<open>Flush\<close>: \<^verbatim>\<open>flush\<close> with buffered items: it waits until the pool has an item
    (\<^verbatim>\<open>canGet\<close>), calls \<^verbatim>\<open>get(worker, bufferedSplats)\<close>, swaps the buffered sub-items into the
    item, pushes it to the device and resets \<open>bufferedSplats\<close>.
  \<^item> \<open>Complete\<close>: the device worker finishes the next sub-item of the work item at
    position \<open>k\<close> and does \<^verbatim>\<open>unallocated_ += sub.numSplats\<close>.
  \<^item> \<open>Free\<close>: the worker is through with the item at \<open>k\<close>; \<^verbatim>\<open>freeItem\<close> returns it to the pool.
\<close>

inductive step :: "DeviceConfig \<Rightarrow> DeviceState \<Rightarrow> DeviceState \<Rightarrow> bool" for cfg where
  Copy: "n \<le> maxItemSplats cfg \<Longrightarrow> bufferedSplats s + n \<le> maxItemSplats cfg
         \<Longrightarrow> step cfg s (s\<lparr>bufferedItems := bufferedItems s @ [n],
                              bufferedSplats := bufferedSplats s + n\<rparr>)"
| Flush: "bufferedItems s \<noteq> [] \<Longrightarrow> 0 < itemPool s
         \<Longrightarrow> step cfg s ((get s (bufferedSplats s))
                           \<lparr>inflight := inflight s @ [bufferedItems s],
                            bufferedItems := [], bufferedSplats := 0\<rparr>)"
| Complete: "k < length (inflight s) \<Longrightarrow> inflight s ! k = n # rest
         \<Longrightarrow> step cfg s (s\<lparr>unallocated := unallocated s + of_nat n,
                              inflight := (inflight s)[k := rest]\<rparr>)"
| Free: "k < length (inflight s) \<Longrightarrow> inflight s ! k = []
         \<Longrightarrow> step cfg s (s\<lparr>itemPool := itemPool s + 1,
                              inflight := take k (inflight s) @ drop (Suc k) (inflight s)\<rparr>)"

inductive reachable :: "DeviceConfig \<Rightarrow> DeviceState \<Rightarrow> bool" for cfg where
  Init: "reachable cfg (initial_device cfg)"
| Step: "reachable cfg s \<Longrightarrow> step cfg s s' \<Longrightarrow> reachable cfg s'"

text \<open>The splats in flight: those of the sub-items handed to the device and not completed.\<close>

definition in_flight :: "DeviceState \<Rightarrow> nat" where
  "in_flight s = sum_list (map sum_list (inflight s))"

text \<open>
  What every reachable state satisfies: the counter and the splats in flight add up, in
  \<^verbatim>\<open>size_t\<close> arithmetic, to the initial value; every work item is either in the pool or in
  flight; no work item in flight holds more than \<open>maxItemSplats\<close> splats; and the copy
  worker's count is that of its buffered sub-items and fits the pinned buffer.
\<close>

definition accounted :: "DeviceConfig \<Rightarrow> DeviceState \<Rightarrow> bool" where
  "accounted cfg s =
     (unallocated s + of_nat (in_flight s) = unallocated (initial_device cfg)
      \<and> itemPool s + length (inflight s) = items cfg
      \<and> (\<forall>it \<in> set (inflight s). sum_list it \<le> maxItemSplats cfg)
      \<and> bufferedSplats s = sum_list (bufferedItems s)
      \<and> bufferedSplats s \<le> maxItemSplats cfg)"

text \<open>A run on one worker and one spare item of ten splats: two work items are copied, flushed
  to the device, and the first sub-item completes.\<close>

definition dev_cfg :: DeviceConfig where
  "dev_cfg = \<lparr>numWorkers = 1, spare = 1, maxItemSplats = 10\<rparr>"

definition dev_s1 :: DeviceState where
  "dev_s1 = \<lparr>unallocated = 20, itemPool = 2, inflight = [],
     bufferedItems = [4], bufferedSplats = 4\<rparr>"

definition dev_s2 :: DeviceState where
  "dev_s2 = \<lparr>unallocated = 20, itemPool = 2, inflight = [],
     bufferedItems = [4, 3], bufferedSplats = 7\<rparr>"

definition dev_s3 :: DeviceState where
  "dev_s3 = \<lparr>unallocated = 13, itemPool = 1, inflight = [[4, 3]],
     bufferedItems = [], bufferedSplats = 0\<rparr>"

definition dev_s4 :: DeviceState where
  "dev_s4 = \<lparr>unallocated = 17, itemPool = 1, inflight = [[3]],
     bufferedItems = [], bufferedSplats = 0\<rparr>"

section \<open>The octree of splats (SplatTree::initialize, splat_tree.cpp)\<close>

text \<open>
  \<^verbatim>\<open>command_type\<close> is declared in splat_tree.h with \<^verbatim>\<open>code_type\<close>; it is taken as the signed
  32-bit type: a command is a splat id, the terminator \<open>-1\<close>, or a jump \<open>-2 - up\<close>. An
  \<^verbatim>\<open>Entry\<close> is one cell of one octree level that a splat covers.
\<close>

type_synonym command_type = "32 word"

record Entry =
  level :: nat
  code :: code_type
  splatId :: command_type

text \<open>\<^verbatim>\<open>Entry::operator<\<close>: by level, then by decreasing code.\<close>

definition entry_less :: "Entry \<Rightarrow> Entry \<Rightarrow> bool" where
  "entry_less a e = (if level a \<noteq> level e then level a < level e else code a > code e)"

text \<open>
  \<^verbatim>\<open>stable_sort\<close> of the standard library, as insertion from the back: an entry goes in
  front of the first one that is not less than it, so entries that compare equal keep
  their order.
\<close>

fun insert_entry :: "Entry \<Rightarrow> Entry list \<Rightarrow> Entry list" where
  "insert_entry e [] = [e]"
| "insert_entry e (x # xs) = (if entry_less x e then x # insert_entry e xs else e # x # xs)"

definition stable_sort :: "Entry list \<Rightarrow> Entry list" where
  "stable_sort entries = foldr insert_entry entries []"

text \<open>
  \<^verbatim>\<open>while ((1U << maxLevel) < size) maxLevel++\<close>. A shift by the 32 bits of the type is
  undefined; the model stops there with \<open>OutOfRange\<close>.
\<close>

function maxLevel_loop :: "nat \<Rightarrow> code_type \<Rightarrow> error + nat" where
  "maxLevel_loop maxLevel sz =
     (if 32 \<le> maxLevel then Inl OutOfRange
      else if push_bit maxLevel 1 < sz then maxLevel_loop (Suc maxLevel) sz
      else Inr maxLevel)"
  by pat_completeness auto
termination by (relation "measure (\<lambda>(maxLevel, sz). 32 - maxLevel)") auto

declare maxLevel_loop.simps [simp del]

text \<open>
  The influence box of a splat arrives as the integers \<open>ilo\<close> and \<open>ihi\<close> that the rounding
  conversions of the vertex coordinates give (\<^verbatim>\<open>int\<close>, 32 bits, read by \<open>sint\<close>). For each
  axis in turn the source checks both ends against the dimensions (\<^verbatim>\<open>std::out_of_range\<close>),
  then coarsens: \<^verbatim>\<open>while ((ihi[i] >> shift) - (ilo[i] >> shift) > 1) shift++\<close>, where \<open>shift\<close>
  carries over from one axis to the next.
\<close>

function shift_loop :: "32 word \<Rightarrow> 32 word \<Rightarrow> nat \<Rightarrow> error + nat" where
  "shift_loop lo hi shift =
     (if 32 \<le> shift then Inl OutOfRange
      else if sint (signed_drop_bit shift hi) - sint (signed_drop_bit shift lo) > 1
        then shift_loop lo hi (Suc shift)
      else Inr shift)"
  by pat_completeness auto
termination by (relation "measure (\<lambda>(lo, hi, shift). 32 - shift)") auto

declare shift_loop.simps [simp del]

definition axis_shift :: "code_type array3 \<Rightarrow> 32 word array3 \<Rightarrow> 32 word array3 \<Rightarrow> nat \<Rightarrow> nat
    \<Rightarrow> error + nat" where
  "axis_shift dims ilo ihi i shift =
     (if \<not> (0 \<le> sint (nth3 ihi i) \<and> sint (nth3 ihi i) < sint (nth3 dims i)) then Inl OutOfRange
      else if \<not> (0 \<le> sint (nth3 ilo i) \<and> sint (nth3 ilo i) < sint (nth3 dims i)) then Inl OutOfRange
      else shift_loop (nth3 ilo i) (nth3 ihi i) shift)"

definition box_shift :: "code_type array3 \<Rightarrow> 32 word array3 \<Rightarrow> 32 word array3 \<Rightarrow> error + nat" where
  "box_shift dims ilo ihi =
     bind_e (axis_shift dims ilo ihi 0 0) (\<lambda>s0.
     bind_e (axis_shift dims ilo ihi 1 s0) (\<lambda>s1.
     axis_shift dims ilo ihi 2 s1))"

text \<open>
  The cells of the box, in the order of the three nested loops (\<open>z\<close> outermost), each
  loop counting an \<^verbatim>\<open>unsigned int\<close> from \<open>ilo\<close> up to \<open>ihi\<close> inclusive.
\<close>

definition axis_range :: "32 word \<Rightarrow> 32 word \<Rightarrow> code_type list" where
  "axis_range lo hi = map of_nat [unat lo ..< Suc (unat hi)]"

definition box_cells :: "32 word array3 \<Rightarrow> 32 word array3 \<Rightarrow> (code_type \<times> code_type \<times> code_type) list" where
  "box_cells ilo ihi =
     concat (map (\<lambda>z. concat (map (\<lambda>y. map (\<lambda>x. (x, y, z))
         (axis_range (nth3 ilo 0) (nth3 ihi 0)))
       (axis_range (nth3 ilo 1) (nth3 ihi 1))))
     (axis_range (nth3 ilo 2) (nth3 ihi 2)))"

fun push_entries :: "nat \<Rightarrow> command_type \<Rightarrow> (code_type \<times> code_type \<times> code_type) list
    \<Rightarrow> Entry list \<Rightarrow> error + Entry list" where
  "push_entries lv sid [] entries = Inr entries"
| "push_entries lv sid ((x, y, z) # cells) entries =
     (case makeCode x y z of
        Inl e \<Rightarrow> Inl e
      | Inr c \<Rightarrow> push_entries lv sid cells (entries @ [\<lparr>level = lv, code = c, splatId = sid\<rparr>]))"

text \<open>
  The body of the loop over the splats: the shift, \<^verbatim>\<open>assert(shift < numLevels)\<close>, both
  ends of the box shifted down, and one entry per cell at level \<open>maxLevel - shift\<close>.
\<close>

definition add_splat :: "code_type array3 \<Rightarrow> nat \<Rightarrow> 32 word array3 \<times> 32 word array3 \<Rightarrow> nat
    \<Rightarrow> Entry list \<Rightarrow> error + Entry list" where
  "add_splat dims maxLevel box sid entries =
     (case box of (ilo, ihi) \<Rightarrow>
        bind_e (box_shift dims ilo ihi) (\<lambda>shift.
          if \<not> shift < maxLevel + 1 then Inl AssertionFailed
          else
            let ilo' = tabulate3 (\<lambda>i. signed_drop_bit shift (nth3 ilo i));
                ihi' = tabulate3 (\<lambda>i. signed_drop_bit shift (nth3 ihi i))
            in push_entries (maxLevel - shift) (of_nat sid) (box_cells ilo' ihi') entries))"

fun add_splats :: "code_type array3 \<Rightarrow> nat \<Rightarrow> (32 word array3 \<times> 32 word array3) list \<Rightarrow> nat
    \<Rightarrow> Entry list \<Rightarrow> error + Entry list" where
  "add_splats dims maxLevel [] sid entries = Inr entries"
| "add_splats dims maxLevel (box # boxes) sid entries =
     (case add_splat dims maxLevel box sid entries of
        Inl e \<Rightarrow> Inl e
      | Inr entries' \<Rightarrow> add_splats dims maxLevel boxes (Suc sid) entries')"

text \<open>
  \<^verbatim>\<open>numCommands\<close>: one command per entry, one more, and one for every entry whose level or
  code differs from its predecessor's.
\<close>

fun count_keys :: "Entry list \<Rightarrow> nat" where
  "count_keys (a # b # entries) =
     (if level b \<noteq> level a \<or> code b \<noteq> code a then 1 else 0) + count_keys (b # entries)"
| "count_keys [a] = 0"
| "count_keys [] = 0"

definition numCommands_of :: "Entry list \<Rightarrow> nat" where
  "numCommands_of entries = length entries + 1 + count_keys entries"

text \<open>
  \<^verbatim>\<open>while (entries[q].level == level && entries[q].code == code) q++\<close> does not compare \<open>q\<close>
  with the number of entries: when the entries are used up it reads the element behind
  the last one. \<open>past\<close> stands for what that read yields. If it does not continue the run,
  the loop ends as it would on a further entry. If it does, the source goes on reading
  and writing out of bounds, and the model gives \<open>OutOfRange\<close>.
\<close>

function run_end :: "Entry list \<Rightarrow> Entry \<Rightarrow> nat \<Rightarrow> code_type \<Rightarrow> nat \<Rightarrow> error + nat" where
  "run_end entries past lv c q =
     (if q < length entries then
        (if level (entries ! q) = lv \<and> code (entries ! q) = c
         then run_end entries past lv c (Suc q) else Inr q)
      else if level past = lv \<and> code past = c then Inl OutOfRange
      else Inr q)"
  by pat_completeness auto
termination by (relation "measure (\<lambda>(entries, past, lv, c, q). length entries - q)") auto

declare run_end.simps [simp del]

text \<open>
  \<^verbatim>\<open>commands[curCommand++] = v\<close> for each \<open>v\<close> in turn, into the array of \<^verbatim>\<open>numCommands\<close>
  commands; a write outside the array gives \<open>OutOfRange\<close>.
\<close>

fun write_commands :: "command_type list \<Rightarrow> command_type \<Rightarrow> command_type list
    \<Rightarrow> error + command_type list \<times> command_type" where
  "write_commands commands curCommand [] = Inr (commands, curCommand)"
| "write_commands commands curCommand (v # vs) =
     (if unat curCommand < length commands
      then write_commands (commands[unat curCommand := v]) (curCommand + 1) vs
      else Inl OutOfRange)"

text \<open>
  The body of the loop over the codes of one level, on the state
  \<open>(starts, commands, curCommand, p)\<close>, \<open>starts\<close> being the vector \<^verbatim>\<open>start\<close>. An index outside it gives \<open>OutOfRange\<close>.
\<close>

type_synonym build_state = "command_type list \<times> command_type list \<times> command_type \<times> nat"

definition build_cell :: "Entry list \<Rightarrow> Entry \<Rightarrow> nat \<Rightarrow> code_type \<Rightarrow> build_state
    \<Rightarrow> error + build_state" where
  "build_cell entries past lv c st =
     (case st of (starts, commands, curCommand, p) \<Rightarrow>
        bind_e (run_end entries past lv c p) (\<lambda>q.
          if \<not> unat c < length starts then Inl OutOfRange
          else
            let up = starts ! unat (drop_bit 3 c) in
            if p < q then
              bind_e (write_commands commands curCommand
                        (map splatId (take (q - p) (drop p entries))
                         @ [if up = - 1 then - 1 else - 2 - up]))
                (\<lambda>(commands', curCommand').
                   Inr (starts[unat c := curCommand], commands', curCommand', q))
            else Inr (starts[unat c := up], commands, curCommand, p)))"

text \<open>\<^verbatim>\<open>for (code = ...; code + 1 > 0; code--)\<close>, from the code \<open>c\<close> downwards.\<close>

function code_loop :: "Entry list \<Rightarrow> Entry \<Rightarrow> nat \<Rightarrow> code_type \<Rightarrow> build_state
    \<Rightarrow> error + build_state" where
  "code_loop entries past lv c st =
     (if c + 1 > 0 then
        (case build_cell entries past lv c st of
           Inl e \<Rightarrow> Inl e
         | Inr st' \<Rightarrow> code_loop entries past lv (c - 1) st')
      else Inr st)"
  by pat_completeness auto
termination
proof (relation "measure (\<lambda>(entries, past, lv, c, st). unat (c + 1))", goal_cases)
  case 1
  show ?case by simp
next
  case (2 entries past lv c st st')
  then have "c + 1 \<noteq> 0" by (simp add: word_greater_zero_iff)
  then have "unat (c + 1) = Suc (unat c)" using unatSuc [of c] by (simp add: add.commute)
  then show ?case by simp
qed

declare code_loop.simps [simp del]

text \<open>
  \<^verbatim>\<open>for (level = 0; level < numLevels; level++)\<close>, the codes of a level starting from
  \<^verbatim>\<open>(code_type(1) << (3 * level)) - 1\<close>; the shift is undefined from 32 bits on.
\<close>

function level_loop :: "Entry list \<Rightarrow> Entry \<Rightarrow> nat \<Rightarrow> nat \<Rightarrow> build_state \<Rightarrow> error + build_state" where
  "level_loop entries past numLevels lv st =
     (if lv < numLevels then
        (if 32 \<le> 3 * lv then Inl OutOfRange
         else case code_loop entries past lv (push_bit (3 * lv) 1 - 1) st of
           Inl e \<Rightarrow> Inl e
         | Inr st' \<Rightarrow> level_loop entries past numLevels (Suc lv) st')
      else Inr st)"
  by pat_completeness auto
termination by (relation "measure (\<lambda>(entries, past, numLevels, lv, st). numLevels - lv)") auto

declare level_loop.simps [simp del]

text \<open>
  What \<^verbatim>\<open>initialize\<close> leaves behind: the number of levels, the command array and the
  \<open>start\<close> vector, which the last loop copies cell by cell into the backing store.
  The constructor has checked the number of splats before (\<^verbatim>\<open>std::length_error\<close>). The
  command array comes from \<^verbatim>\<open>allocateCommands\<close>; its cells are zero here until written.
\<close>

record SplatTree =
  numLevels :: nat
  commands :: "command_type list"
  start_t :: "command_type list"

definition initialize :: "code_type array3 \<Rightarrow> (32 word array3 \<times> 32 word array3) list \<Rightarrow> Entry
    \<Rightarrow> error + SplatTree" where
  "initialize dims boxes past =
     (if \<not> length boxes < 2147483647 div 16 then Inl LengthError
      else
        bind_e (maxLevel_loop 0 (max (nth3 dims 0) (max (nth3 dims 1) (nth3 dims 2)))) (\<lambda>maxLevel.
        bind_e (add_splats dims maxLevel boxes 0 []) (\<lambda>unsorted.
          let entries = stable_sort unsorted;
              numCommands = numCommands_of entries
          in if 32 \<le> 3 * maxLevel then Inl OutOfRange
             else
               bind_e (level_loop entries past (maxLevel + 1) 0
                         (replicate (unat (push_bit (3 * maxLevel) 1 :: code_type)) (- 1),
                          replicate numCommands 0, 0, 0))
                 (\<lambda>(starts, commands, curCommand, p).
                    Inr \<lparr>numLevels = maxLevel + 1, commands = commands, start_t = starts\<rparr>))))"

text \<open>
  The value that the transfer loop stores in the backing store for the vertex \<open>(x, y, z)\<close>:
  \<^verbatim>\<open>start[makeCode(x, y, z)]\<close>.
\<close>

definition realStart :: "SplatTree \<Rightarrow> code_type \<Rightarrow> code_type \<Rightarrow> code_type \<Rightarrow> error + command_type" where
  "realStart t x y z =
     bind_e (makeCode x y z) (\<lambda>c.
       if unat c < length (start_t t) then Inr (start_t t ! unat c) else Inl OutOfRange)"

text \<open>The box of the vertices \<open>[0,1] \<times> [0,1] \<times> [0,1]\<close>, and memory of zeros behind the entries.\<close>

definition unit_box :: "32 word array3 \<times> 32 word array3" where
  "unit_box = ((0, 0, 0), (1, 1, 1))"

definition zero_entry :: Entry where
  "zero_entry = \<lparr>level = 0, code = 0, splatId = 0\<rparr>"

text \<open>
  The entries of the single splat with the box \<open>unit_box\<close> when the finest level is \<open>L\<close>, in
  the order the sort leaves them in.
\<close>

definition unit_entry :: "nat \<Rightarrow> code_type \<Rightarrow> Entry" where
  "unit_entry L c = \<lparr>level = L, code = c, splatId = 0\<rparr>"

definition unit_sorted :: "nat \<Rightarrow> Entry list" where
  "unit_sorted L = [unit_entry L 7, unit_entry L 6, unit_entry L 5, unit_entry L 4,
            unit_entry L 3, unit_entry L 2, unit_entry L 1, unit_entry L 0]"

section \<open>Merging range lists (splat_set_impl.h)\<close>

text \<open>
  \<^verbatim>\<open>SplatSet::merge\<close> reads two sequences of pairs \<open>(first, second)\<close> of splat ids and
  writes pairs to an output iterator; the model returns the list of pairs written. The
  ids are only compared (\<^verbatim>\<open>min\<close>, \<^verbatim>\<open>max\<close>, \<^verbatim>\<open><=\<close>), so the element type is any linear
  order, the unsigned 64-bit \<^verbatim>\<open>splat_id\<close> among them.

  \<open>extend_last\<close> is the inner \<^verbatim>\<open>while (true)\<close> loop: it extends \<^verbatim>\<open>last\<close> (here \<open>lst\<close>) as far
  as the two sequences have ranges starting at or before it, and returns the final
  \<^verbatim>\<open>last\<close> with the two advanced positions.
\<close>

function extend_last :: "'a::linorder \<Rightarrow> ('a \<times> 'a) list \<Rightarrow> ('a \<times> 'a) list
    \<Rightarrow> 'a \<times> ('a \<times> 'a) list \<times> ('a \<times> 'a) list" where
  "extend_last lst p1 p2 =
     (if p1 \<noteq> [] \<and> fst (hd p1) \<le> lst then extend_last (max lst (snd (hd p1))) (tl p1) p2
      else if p2 \<noteq> [] \<and> fst (hd p2) \<le> lst then extend_last (max lst (snd (hd p2))) p1 (tl p2)
      else (lst, p1, p2))"
  by pat_completeness auto
termination
  by (relation "measure (\<lambda>(lst, p1, p2). length p1 + length p2)") (auto simp: Suc_pred')

declare extend_last.simps [simp del]

lemma extend_last_length:
  "extend_last lst p1 p2 = (l, q1, q2) \<Longrightarrow> length q1 + length q2 \<le> length p1 + length p2"
proof (induction lst p1 p2 rule: extend_last.induct)
  case (1 lst p1 p2)
  show ?case
  proof (cases "p1 \<noteq> [] \<and> fst (hd p1) \<le> lst")
    case True
    with "1.prems" have "extend_last (max lst (snd (hd p1))) (tl p1) p2 = (l, q1, q2)"
      by (simp add: extend_last.simps [of lst p1 p2])
    from "1.IH"(1) [OF True this] True show ?thesis by (cases p1) auto
  next
    case False
    show ?thesis
    proof (cases "p2 \<noteq> [] \<and> fst (hd p2) \<le> lst")
      case True
      with False "1.prems" have "extend_last (max lst (snd (hd p2))) p1 (tl p2) = (l, q1, q2)"
        by (auto simp: extend_last.simps [of lst p1 p2])
      from "1.IH"(2) [OF False True this] True show ?thesis by (cases p2) auto
    next
      case F2: False
      with False "1.prems" show ?thesis by (auto simp: extend_last.simps [of lst p1 p2])
    qed
  qed
qed

lemma extend_last_progress:
  assumes "(p1 \<noteq> [] \<and> fst (hd p1) \<le> lst) \<or> (p2 \<noteq> [] \<and> fst (hd p2) \<le> lst)"
    and "extend_last lst p1 p2 = (l, q1, q2)"
  shows "length q1 + length q2 < length p1 + length p2"
proof (cases "p1 \<noteq> [] \<and> fst (hd p1) \<le> lst")
  case True
  with assms(2) have "extend_last (max lst (snd (hd p1))) (tl p1) p2 = (l, q1, q2)"
    by (simp add: extend_last.simps [of lst p1 p2])
  from extend_last_length [OF this] True show ?thesis by (cases p1) auto
next
  case False
  with assms(1) have T2: "p2 \<noteq> [] \<and> fst (hd p2) \<le> lst" by blast
  with False assms(2) have "extend_last (max lst (snd (hd p2))) p1 (tl p2) = (l, q1, q2)"
    by (auto simp: extend_last.simps [of lst p1 p2])
  from extend_last_length [OF this] T2 show ?thesis by (cases p2) auto
qed

text \<open>
  The outer loop runs while both sequences have ranges left; the tails are then copied
  (\<^verbatim>\<open>std::copy\<close> of the rest of the first sequence, then of the second).
\<close>

function merge :: "('a::linorder \<times> 'a) list \<Rightarrow> ('a \<times> 'a) list \<Rightarrow> ('a \<times> 'a) list" where
  "merge p1 p2 =
     (if p1 \<noteq> [] \<and> p2 \<noteq> [] then
        (let first = min (fst (hd p1)) (fst (hd p2));
             r = extend_last first p1 p2
         in (first, fst r) # merge (fst (snd r)) (snd (snd r)))
      else p1 @ p2)"
  by pat_completeness auto
termination
proof (relation "measure (\<lambda>(p1, p2). length p1 + length p2)", goal_cases)
  case 1
  show ?case by simp
next
  case (2 p1 p2 x xa)
  then have "(p1 \<noteq> [] \<and> fst (hd p1) \<le> x) \<or> (p2 \<noteq> [] \<and> fst (hd p2) \<le> x)"
    by (auto simp: min_def)
  from extend_last_progress [OF this, of "fst xa" "fst (snd xa)" "snd (snd xa)"] 2
  show ?case by (simp add: case_prod_beta)
qed

declare merge.simps [simp del]

text \<open>
  The words of the claim: a list of ranges is sorted by first endpoint and maximally
  coalesced when each range starts no later than the next one and ends strictly before
  the next one starts; \<open>covered\<close> is the set of ids of the half-open ranges of a list.
\<close>

fun sorted_coalesced :: "('a::linorder \<times> 'a) list \<Rightarrow> bool" where
  "sorted_coalesced [] = True"
| "sorted_coalesced [r] = True"
| "sorted_coalesced (r # s # rs) = (fst r \<le> fst s \<and> snd r < fst s \<and> sorted_coalesced (s # rs))"

definition covered :: "('a::linorder \<times> 'a) list \<Rightarrow> 'a set" where
  "covered rs = (\<Union>r \<in> set rs. {fst r ..< snd r})"

section \<open>Progress accounting of the copy worker (workers.cpp)\<close>

text \<open>
  A splat has a position of three \<^verbatim>\<open>float\<close>s and a radius. Every finite \<^verbatim>\<open>float\<close> is a whole
  multiple of \<open>2 ^ - 149\<close>, and the model takes a \<^verbatim>\<open>float\<close> as that multiple, an integer:
  \<open>p\<close> stands for the number \<open>p / 2 ^ 149\<close>, and the integer \<open>n\<close> is \<open>n * 2 ^ 149\<close> units. A
  grid gives, for each axis, its extent: a pair of \<^verbatim>\<open>int\<close>s (\<^verbatim>\<open>Grid::extent_type\<close>; grid.h is
  not among the sources, the pair is read through \<^verbatim>\<open>.first\<close> and \<^verbatim>\<open>.second\<close> and holds
  \<^verbatim>\<open>Grid::difference_type\<close>). Of a work item of the copy group the model keeps the chunk
  id, the grid and the splats; \<^verbatim>\<open>numSplats\<close> is their number. A sub-item is what the device
  gets for it.
\<close>

type_synonym float = int

definition units :: "int \<Rightarrow> float" where
  "units n = n * 2 ^ 149"

record Splat =
  position :: "float array3"
  radius :: float

type_synonym extent_type = "int \<times> int"

record Grid =
  extents :: "extent_type array3"

record WorkItem =
  chunkId :: nat
  grid :: Grid
  splats :: "Splat list"


text \<open>
  In \<^verbatim>\<open>p >= e.first && p < e.second\<close> the \<^verbatim>\<open>float\<close> \<open>p\<close> is compared with an \<^verbatim>\<open>int\<close>, which the
  language converts to \<^verbatim>\<open>float\<close> first: to the nearest number with 24 significant bits,
  a tie going to the even one. \<open>bit_length\<close> is the number of bits of a natural number.
\<close>

fun bit_length :: "nat \<Rightarrow> nat" where
  "bit_length n = (if n = 0 then 0 else Suc (bit_length (n div 2)))"

declare bit_length.simps [simp del]

definition float_of_int :: "int \<Rightarrow> float" where
  "float_of_int n =
     (let a = nat \<bar>n\<bar>;
          e = bit_length a - 24;
          q = a div 2 ^ e;
          r = a mod 2 ^ e;
          m = (if 2 ^ e < 2 * r \<or> (2 * r = 2 ^ e \<and> odd q) then q + 1 else q)
      in units (sgn n * int (m * 2 ^ e)))"

text \<open>The test of one axis, and \<^verbatim>\<open>inside\<close> after the loop over the three axes.\<close>

definition inside_axis :: "WorkItem \<Rightarrow> Splat \<Rightarrow> nat \<Rightarrow> bool" where
  "inside_axis work s j =
     (let e = nth3 (extents (grid work)) j;
          p = nth3 (position s) j
      in float_of_int (fst e) \<le> p \<and> p < float_of_int (snd e))"

definition inside :: "WorkItem \<Rightarrow> Splat \<Rightarrow> bool" where
  "inside work s =
     (((True \<and> inside_axis work s 0) \<and> inside_axis work s 1) \<and> inside_axis work s 2)"








subsection \<open>The count in the words of the specification\<close>







subsection \<open>Two runs\<close>








chapter \<open>Properties\<close>

section \<open>Properties of the blob index\<close>

lemma fits_bit: "fits n v \<Longrightarrow> bit v k \<Longrightarrow> k < n"
proof -
  assume "fits n v" "bit v k"
  then have "bit (take_bit n v) k" by (simp add: fits_def)
  then show "k < n" by (simp add: bit_simps)
qed

lemma extractUnsigned_field:
  "lbit < hbit \<Longrightarrow> hbit \<le> 32 \<Longrightarrow> hbit - lbit < 32
   \<Longrightarrow> extractUnsigned v lbit hbit = Inr (bits_at lbit (hbit - lbit) v)"
  by (simp add: extractUnsigned_def mask_eq_exp_minus_1 take_bit_eq_mask bits_at_def)

lemma field_or: "bits_at l n (a OR b) = bits_at l n a OR bits_at l n b"
  unfolding bits_at_def by (rule bit_eqI) (auto simp: bit_simps)

lemma field_hit:
  assumes "fits n v" "l + n \<le> 32"
  shows "bits_at l n (push_bit l v) = v"
  unfolding bits_at_def
proof (rule bit_eqI)
  fix k
  from assms(2) fits_bit [OF assms(1), of k]
  show "bit (take_bit n (drop_bit l (push_bit l v))) k = bit v k"
    by (auto simp: bit_simps)
qed

lemma field_above: "l + n \<le> l' \<Longrightarrow> bits_at l n (push_bit l' v) = 0"
  unfolding bits_at_def by (rule bit_eqI) (auto simp: bit_simps)

lemma field_below:
  assumes "fits n' v" "l' + n' \<le> l"
  shows "bits_at l n (push_bit l' v) = 0"
  unfolding bits_at_def
proof (rule bit_eqI)
  fix k
  have "\<not> bit v (k + l - l')"
  proof
    assume "bit v (k + l - l')"
    from fits_bit [OF assms(1) this] assms(2) show False by simp
  qed
  then show "bit (take_bit n (drop_bit l (push_bit l' v))) k = bit (0 :: 32 word) k"
    by (auto simp: bit_simps add.commute)
qed

lemma sint_eqD: "sint (d :: 32 word) = k \<Longrightarrow> d = word_of_int k"
  by auto

lemma small_signed_cases:
  assumes "- 4 \<le> sint (d :: 32 word)" "sint d \<le> 3"
  shows "d = - 4 \<or> d = - 3 \<or> d = - 2 \<or> d = - 1 \<or> d = 0 \<or> d = 1 \<or> d = 2 \<or> d = 3"
proof -
  from assms have "sint d = - 4 \<or> sint d = - 3 \<or> sint d = - 2 \<or> sint d = - 1
      \<or> sint d = 0 \<or> sint d = 1 \<or> sint d = 2 \<or> sint d = 3" by linarith
  then show ?thesis using sint_eqD [of d] by fastforce
qed

lemma enc3_ok:
  assumes "- 4 \<le> sint (d :: 32 word)" "sint d \<le> 3"
  shows "fits 3 (enc3 d) \<and> dec3 (enc3 d) = d"
  using small_signed_cases [OF assms] by (elim disjE) (simp_all add: enc3_def dec3_def fits_def)

lemma sint_diff_exact:
  assumes "- (2 ^ 31) \<le> sint a - sint b" "sint a - sint b < 2 ^ 31"
  shows "sint (a - b :: 32 word) = sint a - sint b"
  using assms by (simp add: sint_word_diff signed_take_bit_int_eq_self)

lemma sint_unique:
  assumes "w = word_of_int k" "- (2 ^ 31) \<le> k" "k < 2 ^ 31"
  shows "sint (w :: 32 word) = k"
  unfolding assms(1) using assms(2,3) by (simp add: signed_of_int signed_take_bit_int_eq_self)

lemma sint_bounds: "- 2147483648 \<le> sint (w :: 32 word)" "sint w \<le> 2147483647"
  using sint_ge [of w] sint_lt [of w] by simp_all

lemma sint_sub4:
  "sint (p - 4 :: 32 word) = (if sint p - 4 < - 2147483648 then sint p - 4 + 4294967296 else sint p - 4)"
proof (cases "sint p - 4 < - 2147483648")
  case True
  have "p - 4 = word_of_int (sint p - 4 + 4294967296)" by simp
  then have "sint (p - 4) = sint p - 4 + 4294967296"
    using True sint_bounds [of p] by (intro sint_unique) simp_all
  with True show ?thesis by simp
next
  case False
  have "p - 4 = word_of_int (sint p - 4)" by simp
  then have "sint (p - 4) = sint p - 4"
    using False sint_bounds [of p] by (intro sint_unique) simp_all
  with False show ?thesis by simp
qed

lemma sint_add3:
  "sint (p + 3 :: 32 word) = (if 2147483647 < sint p + 3 then sint p + 3 - 4294967296 else sint p + 3)"
proof (cases "2147483647 < sint p + 3")
  case True
  have "p + 3 = word_of_int (sint p + 3 - 4294967296)" by simp
  then have "sint (p + 3) = sint p + 3 - 4294967296"
    using True sint_bounds [of p] by (intro sint_unique) simp_all
  with True show ?thesis by simp
next
  case False
  have "p + 3 = word_of_int (sint p + 3)" by simp
  then have "sint (p + 3) = sint p + 3"
    using False sint_bounds [of p] by (intro sint_unique) simp_all
  with False show ?thesis by simp
qed

lemma axis_fits_range:
  assumes "axis_fits prev cur i"
  shows "- 4 \<le> sint (nth3 (lower cur) i) - sint (nth3 (upper prev) i)"
    and "sint (nth3 (lower cur) i) - sint (nth3 (upper prev) i) \<le> 3"
proof -
  let ?l = "nth3 (lower cur) i" and ?pu = "nth3 (upper prev) i"
  define L P A B where "L = sint ?l" and "P = sint ?pu" and "A = sint (?pu - 4)"
    and "B = sint (?pu + 3)"
  from assms have ab: "A \<le> L" "L \<le> B" by (simp_all add: axis_fits_def L_def A_def B_def)
  have bl: "- 2147483648 \<le> L" "L \<le> 2147483647"
    and bp: "- 2147483648 \<le> P" "P \<le> 2147483647"
    unfolding L_def P_def by (rule sint_bounds)+
  have a: "A = (if P - 4 < - 2147483648 then P - 4 + 4294967296 else P - 4)"
    unfolding A_def P_def by (rule sint_sub4)
  have b: "B = (if 2147483647 < P + 3 then P + 3 - 4294967296 else P + 3)"
    unfolding B_def P_def by (rule sint_add3)
  have "- 4 \<le> L - P \<and> L - P \<le> 3"
    using ab bl bp a b by (auto split: if_splits)
  then show "- 4 \<le> sint ?l - sint ?pu" "sint ?l - sint ?pu \<le> 3"
    by (simp_all add: L_def P_def)
qed

lemma axis_delta:
  assumes "axis_fits prev cur i"
  shows "- 4 \<le> sint (nth3 (lower cur) i - nth3 (upper prev) i)"
    and "sint (nth3 (lower cur) i - nth3 (upper prev) i) \<le> 3"
proof -
  let ?l = "nth3 (lower cur) i" and ?pu = "nth3 (upper prev) i"
  note r = axis_fits_range [OF assms]
  then have "sint (?l - ?pu) = sint ?l - sint ?pu" by (intro sint_diff_exact) simp_all
  with r show "- 4 \<le> sint (?l - ?pu)" "sint (?l - ?pu) \<le> 3" by simp_all
qed

lemma axis_size:
  assumes "axis_fits prev cur i"
    and "sint (nth3 (lower cur) i) \<le> sint (nth3 (upper cur) i)"
    and "in_int (sint (nth3 (upper cur) i) - sint (nth3 (lower cur) i))"
  shows "nth3 (upper cur) i - nth3 (lower cur) i = 0
       \<or> nth3 (upper cur) i - nth3 (lower cur) i = 1"
proof -
  let ?l = "nth3 (lower cur) i" and ?u = "nth3 (upper cur) i"
  from assms(3) have "sint (?u - ?l) = sint ?u - sint ?l"
    by (intro sint_diff_exact) (simp_all add: in_int_def)
  moreover from assms(1) have "sint (?u - ?l) \<le> 1" by (simp add: axis_fits_def)
  ultimately have "sint (?u - ?l) = 0 \<or> sint (?u - ?l) = 1" using assms(2) by linarith
  then show ?thesis using sint_eqD [of "?u - ?l"] by fastforce
qed

lemma insertSigned_3:
  assumes "- 4 \<le> sint d" "sint d \<le> 3" "hbit = lbit + 3" "hbit \<le> 32"
  shows "insertSigned p d lbit hbit = Inr (p OR push_bit lbit (enc3 d))"
  using assms by (simp add: insertSigned_def enc3_def)

lemma insertUnsigned_1:
  assumes "hbit = lbit + 1" "hbit \<le> 32"
  shows "insertUnsigned p s lbit hbit =
           (if s = 0 \<or> s = 1 then Inr (p OR push_bit lbit s) else Inl AssertionFailed)"
proof -
  have "s < 2 \<longleftrightarrow> s = 0 \<or> s = 1"
  proof
    assume "s < 2"
    then have "unat s < 2" by (simp add: word_less_nat_alt)
    then have "unat s = 0 \<or> unat s = 1" by linarith
    then have "unat s = unat (0 :: 32 word) \<or> unat s = unat (1 :: 32 word)" by simp
    then show "s = 0 \<or> s = 1" unfolding word_unat_eq_iff [symmetric] .
  qed auto
  with assms show ?thesis by (simp add: insertUnsigned_def)
qed

lemma insert_axis_eq:
  assumes "axis_fits prev cur i" "i \<le> 2"
  shows "insert_axis prev cur i p =
     (let d = nth3 (lower cur) i - nth3 (upper prev) i;
          s = nth3 (upper cur) i - nth3 (lower cur) i
      in if s = 0 \<or> s = 1
         then Inr ((p OR push_bit (i * 4) (enc3 d)) OR push_bit (i * 4 + 3) s)
         else Inl AssertionFailed)"
  using assms(2) axis_delta [OF assms(1)]
  by (simp add: insert_axis_def insertSigned_3 insertUnsigned_1 bind_e_def Let_def)

lemma packed_fields:
  fixes e0 e1 e2 s0 s1 s2 c :: "32 word"
  assumes e: "fits 3 e0" "fits 3 e1" "fits 3 e2"
    and s: "fits 1 s0" "fits 1 s1" "fits 1 s2"
    and c: "fits 19 c"
  defines "P \<equiv> (((((((push_bit 31 1 OR push_bit 0 e0) OR push_bit 3 s0) OR push_bit 4 e1)
                  OR push_bit 7 s1) OR push_bit 8 e2) OR push_bit 11 s2) OR push_bit 12 c)"
  shows "bits_at 0 3 P = e0" "bits_at 3 1 P = s0"
    "bits_at 4 3 P = e1" "bits_at 7 1 P = s1"
    "bits_at 8 3 P = e2" "bits_at 11 1 P = s2"
    "bits_at 12 19 P = c" "P AND push_bit 31 1 \<noteq> 0"
proof -
  have P: "P = (((((((push_bit 31 1 OR push_bit 0 e0) OR push_bit 3 s0) OR push_bit 4 e1)
                  OR push_bit 7 s1) OR push_bit 8 e2) OR push_bit 11 s2) OR push_bit 12 c)"
    by (simp only: P_def)
  note zero = or.left_neutral or.right_neutral
  have a0: "bits_at 0 3 (push_bit 31 (1 :: 32 word)) = 0"
    "bits_at 0 3 (push_bit 3 s0) = 0"
    "bits_at 0 3 (push_bit 4 e1) = 0"
    "bits_at 0 3 (push_bit 7 s1) = 0"
    "bits_at 0 3 (push_bit 8 e2) = 0"
    "bits_at 0 3 (push_bit 11 s2) = 0"
    "bits_at 0 3 (push_bit 12 c) = 0"
    by (rule field_above, simp)+
  have h0: "bits_at 0 3 (push_bit 0 e0) = e0"
    by (rule field_hit [OF e(1)]) simp
  show "bits_at 0 3 P = e0"
    unfolding P field_or by (simp only: a0 h0 zero)
  have a1: "bits_at 3 1 (push_bit 31 (1 :: 32 word)) = 0"
    "bits_at 3 1 (push_bit 4 e1) = 0"
    "bits_at 3 1 (push_bit 7 s1) = 0"
    "bits_at 3 1 (push_bit 8 e2) = 0"
    "bits_at 3 1 (push_bit 11 s2) = 0"
    "bits_at 3 1 (push_bit 12 c) = 0"
    by (rule field_above, simp)+
  have b10: "bits_at 3 1 (push_bit 0 e0) = 0"
    by (rule field_below [OF e(1)]) simp
  have h1: "bits_at 3 1 (push_bit 3 s0) = s0"
    by (rule field_hit [OF s(1)]) simp
  show "bits_at 3 1 P = s0"
    unfolding P field_or by (simp only: a1 b10 h1 zero)
  have a2: "bits_at 4 3 (push_bit 31 (1 :: 32 word)) = 0"
    "bits_at 4 3 (push_bit 7 s1) = 0"
    "bits_at 4 3 (push_bit 8 e2) = 0"
    "bits_at 4 3 (push_bit 11 s2) = 0"
    "bits_at 4 3 (push_bit 12 c) = 0"
    by (rule field_above, simp)+
  have b20: "bits_at 4 3 (push_bit 0 e0) = 0"
    by (rule field_below [OF e(1)]) simp
  have b21: "bits_at 4 3 (push_bit 3 s0) = 0"
    by (rule field_below [OF s(1)]) simp
  have h2: "bits_at 4 3 (push_bit 4 e1) = e1"
    by (rule field_hit [OF e(2)]) simp
  show "bits_at 4 3 P = e1"
    unfolding P field_or by (simp only: a2 b20 b21 h2 zero)
  have a3: "bits_at 7 1 (push_bit 31 (1 :: 32 word)) = 0"
    "bits_at 7 1 (push_bit 8 e2) = 0"
    "bits_at 7 1 (push_bit 11 s2) = 0"
    "bits_at 7 1 (push_bit 12 c) = 0"
    by (rule field_above, simp)+
  have b30: "bits_at 7 1 (push_bit 0 e0) = 0"
    by (rule field_below [OF e(1)]) simp
  have b31: "bits_at 7 1 (push_bit 3 s0) = 0"
    by (rule field_below [OF s(1)]) simp
  have b32: "bits_at 7 1 (push_bit 4 e1) = 0"
    by (rule field_below [OF e(2)]) simp
  have h3: "bits_at 7 1 (push_bit 7 s1) = s1"
    by (rule field_hit [OF s(2)]) simp
  show "bits_at 7 1 P = s1"
    unfolding P field_or by (simp only: a3 b30 b31 b32 h3 zero)
  have a4: "bits_at 8 3 (push_bit 31 (1 :: 32 word)) = 0"
    "bits_at 8 3 (push_bit 11 s2) = 0"
    "bits_at 8 3 (push_bit 12 c) = 0"
    by (rule field_above, simp)+
  have b40: "bits_at 8 3 (push_bit 0 e0) = 0"
    by (rule field_below [OF e(1)]) simp
  have b41: "bits_at 8 3 (push_bit 3 s0) = 0"
    by (rule field_below [OF s(1)]) simp
  have b42: "bits_at 8 3 (push_bit 4 e1) = 0"
    by (rule field_below [OF e(2)]) simp
  have b43: "bits_at 8 3 (push_bit 7 s1) = 0"
    by (rule field_below [OF s(2)]) simp
  have h4: "bits_at 8 3 (push_bit 8 e2) = e2"
    by (rule field_hit [OF e(3)]) simp
  show "bits_at 8 3 P = e2"
    unfolding P field_or by (simp only: a4 b40 b41 b42 b43 h4 zero)
  have a5: "bits_at 11 1 (push_bit 31 (1 :: 32 word)) = 0"
    "bits_at 11 1 (push_bit 12 c) = 0"
    by (rule field_above, simp)+
  have b50: "bits_at 11 1 (push_bit 0 e0) = 0"
    by (rule field_below [OF e(1)]) simp
  have b51: "bits_at 11 1 (push_bit 3 s0) = 0"
    by (rule field_below [OF s(1)]) simp
  have b52: "bits_at 11 1 (push_bit 4 e1) = 0"
    by (rule field_below [OF e(2)]) simp
  have b53: "bits_at 11 1 (push_bit 7 s1) = 0"
    by (rule field_below [OF s(2)]) simp
  have b54: "bits_at 11 1 (push_bit 8 e2) = 0"
    by (rule field_below [OF e(3)]) simp
  have h5: "bits_at 11 1 (push_bit 11 s2) = s2"
    by (rule field_hit [OF s(3)]) simp
  show "bits_at 11 1 P = s2"
    unfolding P field_or by (simp only: a5 b50 b51 b52 b53 b54 h5 zero)
  have a6: "bits_at 12 19 (push_bit 31 (1 :: 32 word)) = 0"
    by (rule field_above, simp)+
  have b60: "bits_at 12 19 (push_bit 0 e0) = 0"
    by (rule field_below [OF e(1)]) simp
  have b61: "bits_at 12 19 (push_bit 3 s0) = 0"
    by (rule field_below [OF s(1)]) simp
  have b62: "bits_at 12 19 (push_bit 4 e1) = 0"
    by (rule field_below [OF e(2)]) simp
  have b63: "bits_at 12 19 (push_bit 7 s1) = 0"
    by (rule field_below [OF s(2)]) simp
  have b64: "bits_at 12 19 (push_bit 8 e2) = 0"
    by (rule field_below [OF e(3)]) simp
  have b65: "bits_at 12 19 (push_bit 11 s2) = 0"
    by (rule field_below [OF s(3)]) simp
  have h6: "bits_at 12 19 (push_bit 12 c) = c"
    by (rule field_hit [OF c]) simp
  show "bits_at 12 19 P = c"
    unfolding P field_or by (simp only: a6 b60 b61 b62 b63 b64 b65 h6 zero)
  have "bit P 31" by (simp add: P bit_simps)
  then have "bit (P AND push_bit 31 1) 31" by (simp add: bit_simps)
  then show "P AND push_bit 31 1 \<noteq> 0" by (metis bit_0_eq bot_apply bot_bool_def)
qed

lemma tag_bit: "(0x80000000 :: 32 word) = push_bit 31 1"
  by simp

lemma count_fits:
  assumes "(w :: 64 word) < push_bit 19 1"
  shows "(ucast w :: 32 word) < push_bit 19 1" and "fits 19 (ucast w)"
    and "(scast (ucast w :: 32 word) :: 64 word) = w"
proof -
  from assms have "w < 2 ^ 19" by simp
  then have t: "take_bit 19 w = w" by (simp add: take_bit_eq_mask less_mask_eq)
  have b: "\<And>k. bit w k \<Longrightarrow> k < 19"
  proof -
    fix k assume "bit w k"
    then have "bit (take_bit 19 w) k" using t by simp
    then show "k < 19" by (simp add: bit_simps)
  qed
  have "take_bit 19 (ucast w :: 32 word) = ucast w"
    by (rule bit_eqI) (auto simp: bit_simps dest: b)
  then show f: "fits 19 (ucast w :: 32 word)" by (simp add: fits_def)
  from \<open>take_bit 19 (ucast w :: 32 word) = ucast w\<close>
  have "(ucast w :: 32 word) = ucast w AND mask 19" by (simp add: take_bit_eq_mask)
  moreover have "(ucast w :: 32 word) AND mask 19 < 2 ^ 19"
    by (rule and_mask_less_size) (simp add: word_size)
  ultimately have "(ucast w :: 32 word) < 2 ^ 19" by simp
  then show "(ucast w :: 32 word) < push_bit 19 1" by simp
  show "(scast (ucast w :: 32 word) :: 64 word) = w"
  proof (rule bit_eqI)
    fix k
    have m: "bit w (min 31 k) = bit w k"
    proof (cases "k \<le> 31")
      case True
      then show ?thesis by (simp add: min_def)
    next
      case False
      then have "\<not> bit w k" "\<not> bit w 31" using b [of k] b [of 31] by auto
      with False show ?thesis by (simp add: min_def)
    qed
    show "bit (scast (ucast w :: 32 word) :: 64 word) k = bit w k"
      using m b [of k] by (auto simp: bit_simps)
  qed
qed

lemma addBlob_differential:
  assumes "differential blobData prev cur"
  shows "addBlob blobData prev cur =
           (if sizes_ok cur then Inr (blobData @ [payload_of prev cur]) else Inl AssertionFailed)"
proof -
  from assms have f: "axis_fits prev cur 0" "axis_fits prev cur 1" "axis_fits prev cur 2"
    and c: "lastSplat cur - firstSplat cur < push_bit 19 1"
    by (simp_all add: differential_def)
  have ax: "insert_axis prev cur 0 p =
      (if nth3 (upper cur) 0 - nth3 (lower cur) 0 = 0 \<or> nth3 (upper cur) 0 - nth3 (lower cur) 0 = 1
       then Inr ((p OR push_bit 0 (enc3 (nth3 (lower cur) 0 - nth3 (upper prev) 0)))
                 OR push_bit 3 (nth3 (upper cur) 0 - nth3 (lower cur) 0))
       else Inl AssertionFailed)"
    "insert_axis prev cur 1 p =
      (if nth3 (upper cur) 1 - nth3 (lower cur) 1 = 0 \<or> nth3 (upper cur) 1 - nth3 (lower cur) 1 = 1
       then Inr ((p OR push_bit 4 (enc3 (nth3 (lower cur) 1 - nth3 (upper prev) 1)))
                 OR push_bit 7 (nth3 (upper cur) 1 - nth3 (lower cur) 1))
       else Inl AssertionFailed)"
    "insert_axis prev cur 2 p =
      (if nth3 (upper cur) 2 - nth3 (lower cur) 2 = 0 \<or> nth3 (upper cur) 2 - nth3 (lower cur) 2 = 1
       then Inr ((p OR push_bit 8 (enc3 (nth3 (lower cur) 2 - nth3 (upper prev) 2)))
                 OR push_bit 11 (nth3 (upper cur) 2 - nth3 (lower cur) 2))
       else Inl AssertionFailed)" for p
    using insert_axis_eq [OF f(1), of p] insert_axis_eq [OF f(2), of p]
      insert_axis_eq [OF f(3), of p] by (simp_all add: Let_def)
  have last: "insertUnsigned p (ucast (lastSplat cur - firstSplat cur)) 12 31
      = Inr (p OR push_bit 12 (ucast (lastSplat cur - firstSplat cur)))" for p
    using count_fits(1) [OF c] by (simp add: insertUnsigned_def)
  show ?thesis
  proof (cases "sizes_ok cur")
    case True
    then have z: "nth3 (upper cur) 0 - nth3 (lower cur) 0 = 0 \<or> nth3 (upper cur) 0 - nth3 (lower cur) 0 = 1"
      "nth3 (upper cur) 1 - nth3 (lower cur) 1 = 0 \<or> nth3 (upper cur) 1 - nth3 (lower cur) 1 = 1"
      "nth3 (upper cur) 2 - nth3 (lower cur) 2 = 0 \<or> nth3 (upper cur) 2 - nth3 (lower cur) 2 = 1"
      by (simp_all add: sizes_ok_def)
    note steps = ax(1) [unfolded if_P [OF z(1)]] ax(2) [unfolded if_P [OF z(2)]]
      ax(3) [unfolded if_P [OF z(3)]]
    have "addBlob blobData prev cur = Inr (blobData @ [payload_of prev cur])"
      unfolding addBlob_def if_P [OF assms] bind_e_def tag_bit steps sum.case last payload_of_def
      by (rule refl)
    with True show ?thesis by simp
  next
    case False
    let ?z = "\<lambda>i. nth3 (upper cur) i - nth3 (lower cur) i = 0
                  \<or> nth3 (upper cur) i - nth3 (lower cur) i = 1"
    from False consider "\<not> ?z 0" | "?z 0" "\<not> ?z 1" | "?z 0" "?z 1" "\<not> ?z 2"
      by (auto simp: sizes_ok_def)
    then have "addBlob blobData prev cur = Inl AssertionFailed"
    proof cases
      case 1
      show ?thesis
        unfolding addBlob_def if_P [OF assms] bind_e_def tag_bit
          ax(1) [unfolded if_not_P [OF 1]] sum.case
        by (rule refl)
    next
      case 2
      show ?thesis
        unfolding addBlob_def if_P [OF assms] bind_e_def tag_bit
          ax(1) [unfolded if_P [OF 2(1)]] ax(2) [unfolded if_not_P [OF 2(2)]] sum.case
        by (rule refl)
    next
      case 3
      show ?thesis
        unfolding addBlob_def if_P [OF assms] bind_e_def tag_bit
          ax(1) [unfolded if_P [OF 3(1)]] ax(2) [unfolded if_P [OF 3(2)]]
          ax(3) [unfolded if_not_P [OF 3(3)]] sum.case
        by (rule refl)
    qed
    with False show ?thesis by simp
  qed
qed

lemma extractSigned_3:
  "hbit = lbit + 3 \<Longrightarrow> hbit \<le> 32 \<Longrightarrow> extractSigned v lbit hbit = Inr (dec3 (bits_at lbit 3 v))"
  by (simp add: extractSigned_def extractUnsigned_field bind_e_def dec3_def Let_def)

lemma decode_axis_eq:
  "i \<le> 2 \<Longrightarrow> decode_axis d b i =
     Inr (nth3 (upper b) i + dec3 (bits_at (i * 4) 3 d),
          nth3 (upper b) i + dec3 (bits_at (i * 4) 3 d) + bits_at (i * 4 + 3) 1 d)"
  by (simp add: decode_axis_def extractSigned_3 extractUnsigned_field bind_e_def Let_def)

lemma nth3_all: "(nth3 a 0, nth3 a 1, nth3 a 2) = a"
  by (cases a) (simp add: nth3_def)

lemma zero_one_fits: "s = 0 \<or> s = 1 \<Longrightarrow> fits 1 (s :: 32 word)"
  by (auto simp: fits_def)

lemma read_record_differential:
  assumes d: "differential blobData prev cur" and z: "sizes_ok cur"
    and b: "upper b = upper prev" "lastSplat b = lastSplat prev"
  shows "read_record b (payload_of prev cur # ws) = Inr (cur, ws)"
proof -
  let ?P = "payload_of prev cur"
  let ?d = "\<lambda>i. nth3 (lower cur) i - nth3 (upper prev) i"
  let ?s = "\<lambda>i. nth3 (upper cur) i - nth3 (lower cur) i"
  let ?c = "ucast (lastSplat cur - firstSplat cur) :: 32 word"
  from d have f: "axis_fits prev cur 0" "axis_fits prev cur 1" "axis_fits prev cur 2"
    and c: "lastSplat cur - firstSplat cur < push_bit 19 1"
    and fl: "lastSplat prev = firstSplat cur"
    by (simp_all add: differential_def)
  note e0 = enc3_ok [OF axis_delta [OF f(1)]]
  note e1 = enc3_ok [OF axis_delta [OF f(2)]]
  note e2 = enc3_ok [OF axis_delta [OF f(3)]]
  from z have zz: "?s 0 = 0 \<or> ?s 0 = 1" "?s 1 = 0 \<or> ?s 1 = 1" "?s 2 = 0 \<or> ?s 2 = 1"
    by (simp_all add: sizes_ok_def)
  note s = zero_one_fits [OF zz(1)] zero_one_fits [OF zz(2)] zero_one_fits [OF zz(3)]
  note pf = packed_fields [OF e0 [THEN conjunct1] e1 [THEN conjunct1] e2 [THEN conjunct1]
      s count_fits(2) [OF c], folded payload_of_def]
  have tag: "?P AND 0x80000000 \<noteq> 0" unfolding tag_bit by (rule pf(8))
  have a0: "decode_axis ?P b 0 = Inr (nth3 (lower cur) 0, nth3 (upper cur) 0)"
    using decode_axis_eq [of 0 ?P b] pf(1,2) e0 b(1) by simp
  have a1: "decode_axis ?P b 1 = Inr (nth3 (lower cur) 1, nth3 (upper cur) 1)"
    using decode_axis_eq [of 1 ?P b] pf(3,4) e1 b(1) by simp
  have a2: "decode_axis ?P b 2 = Inr (nth3 (lower cur) 2, nth3 (upper cur) 2)"
    using decode_axis_eq [of 2 ?P b] pf(5,6) e2 b(1) by simp
  have n: "extractUnsigned ?P 12 31 = Inr ?c"
    using extractUnsigned_field [of 12 31 ?P] pf(7) by simp
  have "read_record b (?P # ws) =
      Inr (\<lparr>firstSplat = lastSplat b, lastSplat = lastSplat b + scast ?c,
             lower = (nth3 (lower cur) 0, nth3 (lower cur) 1, nth3 (lower cur) 2),
             upper = (nth3 (upper cur) 0, nth3 (upper cur) 1, nth3 (upper cur) 2)\<rparr>, ws)"
    unfolding read_record_def list.case if_P [OF tag] a0 a1 a2 n bind_e_def sum.case fst_conv snd_conv
    by (rule refl)
  also have "\<dots> = Inr (cur, ws)"
    unfolding nth3_all using count_fits(3) [OF c] b(2) fl by simp
  finally show ?thesis .
qed

lemma addBlob_full:
  "\<not> differential blobData prev cur \<Longrightarrow> addBlob blobData prev cur = Inr (blobData @ full_record cur)"
  by (simp add: addBlob_def full_record_def)

lemma halves_join:
  "push_bit 32 (ucast (ucast (drop_bit 32 w) :: 32 word)) OR ucast (ucast (w AND 0xFFFFFFFF) :: 32 word)
     = (w :: 64 word)"
proof -
  have m: "(0xFFFFFFFF :: 64 word) = mask 32" by (simp add: mask_eq_exp_minus_1)
  show ?thesis unfolding m
    by (rule bit_eqI) (auto simp: bit_simps)
qed

lemma high_bit_aux:
  assumes "\<not> bit (w :: 64 word) (32 + k)"
  shows "(ucast (drop_bit 32 w) :: 32 word) AND 2 ^ k = 0"
  using assms by (intro bit_eqI) (auto simp: bit_simps)

lemma high_bit_clear:
  assumes "(w :: 64 word) < 2 ^ 63"
  shows "(ucast (drop_bit 32 w) :: 32 word) AND 0x80000000 = 0"
proof -
  from assms have t: "take_bit 63 w = w" by (simp add: take_bit_eq_mask less_mask_eq)
  have "\<not> bit w 63"
  proof
    assume "bit w 63"
    then have "bit (take_bit 63 w) 63" using t by simp
    then show False by (simp add: bit_simps)
  qed
  then have "(ucast (drop_bit 32 w) :: 32 word) AND 2 ^ 31 = 0"
    by (intro high_bit_aux) simp
  then show ?thesis by simp
qed

lemma nth3_all_Suc: "(nth3 a 0, nth3 a (Suc 0), nth3 a 2) = a"
  by (cases a) (simp add: nth3_def)

lemma read_record_full:
  assumes "firstSplat cur < 2 ^ 63"
  shows "read_record b (full_record cur @ ws) = Inr (cur, ws)"
  using high_bit_clear [OF assms] halves_join [of "firstSplat cur"] halves_join [of "lastSplat cur"]
  by (simp add: read_record_def full_record_def nth3_all_Suc)

lemma refill_in_file:
  assumes "remaining st \<noteq> 0" "stream st = Some ws" "read_record (curBlob st) ws = Inr (b, ws')"
  shows "refill files st = Inr (st\<lparr>curBlob := b, remaining := remaining st - 1, stream := Some ws'\<rparr>)"
  using assms by (simp add: refill_def next_file.simps [of files st] bind_e_def)

lemma addBlob_appends:
  assumes "addBlob D prev cur = Inr D1" "firstSplat cur < 2 ^ 63" "D = [] \<or> b = prev"
  shows "\<exists>rec. D1 = D @ rec \<and> (\<forall>ws. read_record b (rec @ ws) = Inr (cur, ws))"
proof (cases "differential D prev cur")
  case True
  with assms(1) have z: "sizes_ok cur" and D1: "D1 = D @ [payload_of prev cur]"
    by (auto simp: addBlob_differential split: if_splits)
  from True have "D \<noteq> []" by (simp add: differential_def)
  with assms(3) have "b = prev" by simp
  with read_record_differential [OF True z, of b] D1 show ?thesis by simp
next
  case False
  with assms(1) have "D1 = D @ full_record cur" by (simp add: addBlob_full)
  then show ?thesis using read_record_full [OF assms(2)] by blast
qed

lemma add_blobs_appends: "add_blobs D prev bs = Inr D' \<Longrightarrow> \<exists>dat. D' = D @ dat"
proof (induction bs arbitrary: D prev)
  case Nil
  then show ?case by simp
next
  case (Cons cur bs)
  from Cons.prems obtain D1 where a: "addBlob D prev cur = Inr D1"
    and w: "add_blobs D1 cur bs = Inr D'"
    by (auto simp: bind_e_def split: sum.splits)
  have "\<exists>rec. D1 = D @ rec"
  proof (cases "differential D prev cur")
    case True
    with a show ?thesis by (auto simp: addBlob_differential split: if_splits)
  next
    case False
    with a show ?thesis by (auto simp: addBlob_full)
  qed
  with Cons.IH [OF w] show ?case by auto
qed

lemma add_blobs_read_blobs:
  assumes "add_blobs D prev bs = Inr (D @ dat)"
    and "\<forall>b \<in> set bs. firstSplat b < 2 ^ 63"
    and "D = [] \<or> curBlob st = prev"
    and "remaining st = length bs + r"
    and "stream st = Some (dat @ rest)"
  shows "read_blobs files st (length bs) =
           Inr (bs, st\<lparr>curBlob := last (curBlob st # bs), remaining := r, stream := Some rest\<rparr>)"
  using assms
proof (induction bs arbitrary: D prev st dat)
  case Nil
  then have "dat = []" by simp
  with Nil show ?case by simp
next
  case (Cons cur bs)
  from Cons.prems(1) obtain D1 where a: "addBlob D prev cur = Inr D1"
    and w: "add_blobs D1 cur bs = Inr (D @ dat)"
    by (auto simp: bind_e_def split: sum.splits)
  have f: "firstSplat cur < 2 ^ 63" using Cons.prems(2) by simp
  from addBlob_appends [OF a f Cons.prems(3)] obtain rec where D1: "D1 = D @ rec"
    and rr: "\<And>ws. read_record (curBlob st) (rec @ ws) = Inr (cur, ws)" by blast
  from add_blobs_appends [OF w] D1 obtain dat1 where dat: "dat = rec @ dat1" by auto
  define st1 where
    "st1 = st\<lparr>curBlob := cur, remaining := remaining st - 1, stream := Some (dat1 @ rest)\<rparr>"
  have s: "stream st = Some (rec @ (dat1 @ rest))" using Cons.prems(5) dat by simp
  have nz: "remaining st \<noteq> 0" using Cons.prems(4) by simp
  have rf: "refill files st = Inr st1"
    unfolding st1_def by (rule refill_in_file [OF nz s rr])
  have w1: "add_blobs D1 cur bs = Inr (D1 @ dat1)" using w D1 dat by simp
  have "read_blobs files st1 (length bs) =
          Inr (bs, st1\<lparr>curBlob := last (curBlob st1 # bs), remaining := r, stream := Some rest\<rparr>)"
  proof (rule Cons.IH [OF w1])
    show "\<forall>b \<in> set bs. firstSplat b < 2 ^ 63" using Cons.prems(2) by simp
    show "D1 = [] \<or> curBlob st1 = cur" by (simp add: st1_def)
    show "remaining st1 = length bs + r" using Cons.prems(4) by (simp add: st1_def)
    show "stream st1 = Some (dat1 @ rest)" by (simp add: st1_def)
  qed
  with rf show ?case by (simp add: bind_e_def st1_def)
qed

lemma read_blobs_add:
  "read_blobs files st (m + n) =
     bind_e (read_blobs files st m) (\<lambda>(bs, st').
     bind_e (read_blobs files st' n) (\<lambda>(bs', st''). Inr (bs @ bs', st'')))"
proof (induction m arbitrary: st)
  case 0
  show ?case by (cases "read_blobs files st n") (auto simp: bind_e_def)
next
  case (Suc m)
  show ?case
  proof (cases "refill files st")
    case (Inl e)
    then show ?thesis by (simp add: bind_e_def)
  next
    case (Inr st1)
    show ?thesis
      using Inr Suc.IH [of st1]
      by (auto simp: bind_e_def split: sum.splits)
  qed
qed

lemma write_file_read_blobs:
  assumes "write_file slices = Inr dat"
    and "\<forall>b \<in> set (blobs_of slices). firstSplat b < 2 ^ 63"
    and "remaining st = length (blobs_of slices) + r"
    and "stream st = Some (dat @ rest)"
  shows "read_blobs files st (length (blobs_of slices)) =
           Inr (blobs_of slices,
                st\<lparr>curBlob := last (curBlob st # blobs_of slices), remaining := r,
                    stream := Some rest\<rparr>)"
  using assms
proof (induction slices arbitrary: dat st)
  case Nil
  then show ?case by (simp add: blobs_of_def)
next
  case (Cons sl slices)
  obtain p bs where sl: "sl = (p, bs)" by (cases sl) auto
  from Cons.prems(1) sl obtain d1 d2 where w1: "add_blobs [] p bs = Inr d1"
    and w2: "write_file slices = Inr d2" and dat: "dat = d1 @ d2"
    by (auto simp: bind_e_def split: sum.splits)
  have bo: "blobs_of (sl # slices) = bs @ blobs_of slices" by (simp add: blobs_of_def sl)
  have f1: "\<forall>b \<in> set bs. firstSplat b < 2 ^ 63" using Cons.prems(2) bo by simp
  have f2: "\<forall>b \<in> set (blobs_of slices). firstSplat b < 2 ^ 63" using Cons.prems(2) bo by simp
  define st1 where "st1 = st\<lparr>curBlob := last (curBlob st # bs),
      remaining := length (blobs_of slices) + r, stream := Some (d2 @ rest)\<rparr>"
  have "read_blobs files st (length bs) = Inr (bs, st1)"
    unfolding st1_def
  proof (rule add_blobs_read_blobs [where D = "[]" and prev = p and dat = d1])
    show "add_blobs [] p bs = Inr ([] @ d1)" using w1 by simp
    show "\<forall>b \<in> set bs. firstSplat b < 2 ^ 63" by (rule f1)
    show "[] = [] \<or> curBlob st = p" by simp
    show "remaining st = length bs + (length (blobs_of slices) + r)"
      using Cons.prems(3) bo by simp
    show "stream st = Some (d1 @ d2 @ rest)" using Cons.prems(4) dat by simp
  qed
  moreover have "read_blobs files st1 (length (blobs_of slices)) =
      Inr (blobs_of slices,
           st1\<lparr>curBlob := last (curBlob st1 # blobs_of slices), remaining := r,
                stream := Some rest\<rparr>)"
    by (rule Cons.IH [OF w2 f2]) (simp_all add: st1_def)
  moreover have "st1\<lparr>curBlob := last (curBlob st1 # blobs_of slices), remaining := r,
                stream := Some rest\<rparr>
      = st\<lparr>curBlob := last (curBlob st # blobs_of (sl # slices)), remaining := r,
                stream := Some rest\<rparr>"
    by (simp add: st1_def bo)
  ultimately show ?case
    unfolding bo length_append read_blobs_add by (simp add: bind_e_def)
qed

lemma refill_initial:
  assumes "n \<noteq> 0"
  shows "refill [\<lparr>nBlobs = n, contents = dat\<rparr>] (initial_stream b0)
       = refill [\<lparr>nBlobs = n, contents = dat\<rparr>]
           \<lparr>curBlob = b0, remaining = n, curFile = 0, stream = Some dat\<rparr>"
  using assms by (simp add: refill_def initial_stream_def next_file.simps Let_def)

lemma refill_at_end:
  assumes "remaining st = 0" "stream st \<noteq> None" "length files \<le> curFile st + 1"
  shows "\<exists>st'. refill files st = Inr st' \<and> firstSplat (curBlob st') = 1
           \<and> lastSplat (curBlob st') = 0"
  using assms by (simp add: refill_def next_file.simps [of files st] Let_def)

lemma refill_initial_empty:
  "\<exists>st'. refill [\<lparr>nBlobs = 0, contents = dat\<rparr>] (initial_stream b0) = Inr st'
      \<and> firstSplat (curBlob st') = 1 \<and> lastSplat (curBlob st') = 0"
  by (simp add: refill_def initial_stream_def next_file.simps Let_def)

lemma legal_axis_iff:
  assumes "sint (nth3 (lower cur) i) \<le> sint (nth3 (upper cur) i)" "no_overflow_axis prev cur i"
  shows "legal_axis prev cur i = axis_fits prev cur i"
proof -
  let ?l = "nth3 (lower cur) i" and ?u = "nth3 (upper cur) i" and ?pu = "nth3 (upper prev) i"
  from assms(2) have n: "in_int (sint ?u - sint ?l)" "in_int (sint ?pu - 4)" "in_int (sint ?pu + 3)"
    by (simp_all add: no_overflow_axis_def)
  from n(1) have s: "sint (?u - ?l) = sint ?u - sint ?l"
    by (intro sint_diff_exact) (simp_all add: in_int_def)
  from n(2) have a: "sint (?pu - 4) = sint ?pu - 4"
    unfolding sint_sub4 by (simp add: in_int_def)
  from n(3) have b: "sint (?pu + 3) = sint ?pu + 3"
    unfolding sint_add3 by (simp add: in_int_def)
  show ?thesis
    unfolding legal_axis_def axis_fits_def s a b using assms(1) by auto
qed

lemma legal_iff_differential:
  assumes "well_formed_box cur" "no_overflow prev cur" "firstSplat cur \<le> lastSplat cur"
  shows "legal blobData prev cur \<longleftrightarrow> differential blobData prev cur"
proof -
  have "uint (firstSplat cur) \<le> uint (lastSplat cur)" using assms(3) by (simp add: word_le_def)
  then have "uint (lastSplat cur - firstSplat cur) = uint (lastSplat cur) - uint (firstSplat cur)"
    by (simp add: uint_sub_lem)
  moreover have "uint (2 ^ 19 :: 64 word) = 2 ^ 19" by simp
  ultimately have c: "uint (lastSplat cur) - uint (firstSplat cur) < 2 ^ 19
      \<longleftrightarrow> lastSplat cur - firstSplat cur < push_bit 19 1"
    by (simp add: word_less_def)
  have a: "legal_axis prev cur 0 = axis_fits prev cur 0"
    "legal_axis prev cur 1 = axis_fits prev cur 1"
    "legal_axis prev cur 2 = axis_fits prev cur 2"
    using assms by (simp_all add: legal_axis_iff well_formed_box_def no_overflow_def)
  show ?thesis unfolding legal_def differential_def a c by auto
qed

lemma differential_sizes_ok:
  assumes "differential blobData prev cur" "inclusive_box cur"
  shows "sizes_ok cur"
proof -
  from assms(1) have f: "axis_fits prev cur 0" "axis_fits prev cur 1" "axis_fits prev cur 2"
    by (simp_all add: differential_def)
  from assms(2) have w: "sint (nth3 (lower cur) 0) \<le> sint (nth3 (upper cur) 0)"
    "sint (nth3 (lower cur) 1) \<le> sint (nth3 (upper cur) 1)"
    "sint (nth3 (lower cur) 2) \<le> sint (nth3 (upper cur) 2)"
    and n: "in_int (sint (nth3 (upper cur) 0) - sint (nth3 (lower cur) 0))"
    "in_int (sint (nth3 (upper cur) 1) - sint (nth3 (lower cur) 1))"
    "in_int (sint (nth3 (upper cur) 2) - sint (nth3 (lower cur) 2))"
    by (simp_all add: inclusive_box_def well_formed_box_def)
  show ?thesis
    unfolding sizes_ok_def
    using axis_size [OF f(1) w(1) n(1)] axis_size [OF f(2) w(2) n(2)]
      axis_size [OF f(3) w(3) n(3)] by blast
qed

lemma addBlob_total:
  assumes "inclusive_box cur"
  shows "\<exists>D1. addBlob D prev cur = Inr D1"
proof (cases "differential D prev cur")
  case True
  from differential_sizes_ok [OF True assms] True show ?thesis
    by (simp add: addBlob_differential)
next
  case False
  then show ?thesis by (simp add: addBlob_full)
qed

lemma add_blobs_total:
  "\<forall>b \<in> set bs. inclusive_box b \<Longrightarrow> \<exists>D'. add_blobs D prev bs = Inr D'"
proof (induction bs arbitrary: D prev)
  case Nil
  show ?case by simp
next
  case (Cons cur bs)
  then have "inclusive_box cur" by simp
  from addBlob_total [OF this, of D prev] obtain D1 where a: "addBlob D prev cur = Inr D1" by blast
  from Cons have "\<forall>b \<in> set bs. inclusive_box b" by simp
  from Cons.IH [OF this, of D1 cur] obtain D' where "add_blobs D1 cur bs = Inr D'" by blast
  with a show ?case by (simp add: bind_e_def)
qed

lemma write_file_total:
  "\<forall>b \<in> set (blobs_of slices). inclusive_box b \<Longrightarrow> \<exists>dat. write_file slices = Inr dat"
proof (induction slices)
  case Nil
  show ?case by simp
next
  case (Cons sl slices)
  obtain p bs where sl: "sl = (p, bs)" by (cases sl) auto
  have bo: "blobs_of (sl # slices) = bs @ blobs_of slices" by (simp add: blobs_of_def sl)
  from Cons.prems bo have 1: "\<forall>b \<in> set bs. inclusive_box b"
    and 2: "\<forall>b \<in> set (blobs_of slices). inclusive_box b" by simp_all
  from add_blobs_total [OF 1, of "[]" p] obtain d1 where "add_blobs [] p bs = Inr d1" by blast
  moreover from Cons.IH [OF 2] obtain d2 where "write_file slices = Inr d2" by blast
  ultimately show ?case by (simp add: sl bind_e_def)
qed

text \<open>
  Claim C2, where the arithmetic of the test does not overflow. For every call of \<^verbatim>\<open>addBlob\<close>
  whose current blob has \<open>firstSplat \<le> lastSplat\<close> and \<open>lower[i] \<le> upper[i]\<close> on every axis,
  and for which \<open>upper - lower\<close>,
  \<open>prev.upper - 4\<close> and \<open>prev.upper + 3\<close> are values of the 32-bit \<^verbatim>\<open>int\<close> on every axis, the
  call appends one 32-bit word (a 4-byte differential record) if and only if all the
  legality conditions hold, and otherwise appends ten words (a 40-byte full record).
\<close>

theorem addBlob_differential_iff_legal:
  assumes "well_formed_box cur" "no_overflow prev cur" "firstSplat cur \<le> lastSplat cur"
  shows "\<exists>rec. addBlob blobData prev cur = Inr (blobData @ rec)
           \<and> length rec = (if legal blobData prev cur then 1 else 10)"
proof (cases "differential blobData prev cur")
  case True
  from assms(1,2) have "inclusive_box cur"
    by (simp add: inclusive_box_def no_overflow_def no_overflow_axis_def)
  from differential_sizes_ok [OF True this] True
  have "addBlob blobData prev cur = Inr (blobData @ [payload_of prev cur])"
    by (simp add: addBlob_differential)
  moreover have "legal blobData prev cur" using True legal_iff_differential [OF assms] by simp
  ultimately show ?thesis by simp
next
  case False
  then have "addBlob blobData prev cur = Inr (blobData @ full_record cur)"
    by (rule addBlob_full)
  moreover have "\<not> legal blobData prev cur" using False legal_iff_differential [OF assms] by simp
  moreover have "length (full_record cur) = 10" by (simp add: full_record_def)
  ultimately show ?thesis by simp
qed

theorem addBlob_differential_iff_legal_witness:
  "well_formed_box \<lparr>firstSplat = 5, lastSplat = 9, lower = (- 4, 0, 3), upper = (- 3, 1, 3)\<rparr>
   \<and> no_overflow \<lparr>firstSplat = 0, lastSplat = 5, lower = (0, 0, 0), upper = (0, 0, 0)\<rparr>
        \<lparr>firstSplat = 5, lastSplat = 9, lower = (- 4, 0, 3), upper = (- 3, 1, 3)\<rparr>
   \<and> (\<exists>rec. addBlob [0] \<lparr>firstSplat = 0, lastSplat = 5, lower = (0, 0, 0), upper = (0, 0, 0)\<rparr>
           \<lparr>firstSplat = 5, lastSplat = 9, lower = (- 4, 0, 3), upper = (- 3, 1, 3)\<rparr>
         = Inr ([0] @ rec) \<and> length rec = 1)"
proof -
  have w: "well_formed_box \<lparr>firstSplat = 5, lastSplat = 9, lower = (- 4, 0, 3), upper = (- 3, 1, 3)\<rparr>"
    by (simp add: well_formed_box_def nth3_def)
  have n: "no_overflow \<lparr>firstSplat = 0, lastSplat = 5, lower = (0, 0, 0), upper = (0, 0, 0)\<rparr>
           \<lparr>firstSplat = 5, lastSplat = 9, lower = (- 4, 0, 3), upper = (- 3, 1, 3)\<rparr>"
    by (simp add: no_overflow_def no_overflow_axis_def in_int_def nth3_def)
  have l: "legal [0] \<lparr>firstSplat = 0, lastSplat = 5, lower = (0, 0, 0), upper = (0, 0, 0)\<rparr>
           \<lparr>firstSplat = 5, lastSplat = 9, lower = (- 4, 0, 3), upper = (- 3, 1, 3)\<rparr>"
    by (simp add: legal_def legal_axis_def nth3_def)
  have f: "firstSplat \<lparr>firstSplat = 5, lastSplat = 9, lower = (- 4, 0, 3), upper = (- 3, 1, 3)\<rparr>
      \<le> lastSplat \<lparr>firstSplat = 5, lastSplat = 9, lower = (- 4, 0, 3), upper = (- 3, 1, 3)\<rparr>"
    by simp
  from addBlob_differential_iff_legal [OF w n f, of "[0]"] w n l
  show ?thesis by simp
qed

text \<open>
  The claim as it is written fails where the test overflows. With \<open>prev.upper[0]\<close>,
  \<open>lower[0]\<close> and \<open>upper[0]\<close> all equal to the largest \<^verbatim>\<open>int\<close>, the box is inclusive and every
  legality condition holds (the size is 0 and \<open>lower\<close> is \<open>prev.upper\<close>), but \<open>prev.upper + 3\<close>
  wraps around to a negative number, \<^verbatim>\<open>lower > prevBlob.upper + 3\<close> is true, and the call
  writes a full record of ten words.
\<close>

theorem addBlob_differential_iff_legal_counterexample:
  "well_formed_box \<lparr>firstSplat = 5, lastSplat = 6, lower = (2147483647, 0, 0), upper = (2147483647, 0, 0)\<rparr>
   \<and> legal [0] \<lparr>firstSplat = 0, lastSplat = 5, lower = (2147483647, 0, 0), upper = (2147483647, 0, 0)\<rparr>
           \<lparr>firstSplat = 5, lastSplat = 6, lower = (2147483647, 0, 0), upper = (2147483647, 0, 0)\<rparr>
   \<and> addBlob [0] \<lparr>firstSplat = 0, lastSplat = 5, lower = (2147483647, 0, 0), upper = (2147483647, 0, 0)\<rparr>
           \<lparr>firstSplat = 5, lastSplat = 6, lower = (2147483647, 0, 0), upper = (2147483647, 0, 0)\<rparr>
       = Inr [0, 0, 5, 0, 6, 2147483647, 2147483647, 0, 0, 0, 0]"
proof (intro conjI)
  show "well_formed_box \<lparr>firstSplat = 5, lastSplat = 6, lower = (2147483647, 0, 0), upper = (2147483647, 0, 0)\<rparr>"
    by (simp add: well_formed_box_def nth3_def)
  show "legal [0] \<lparr>firstSplat = 0, lastSplat = 5, lower = (2147483647, 0, 0), upper = (2147483647, 0, 0)\<rparr>
           \<lparr>firstSplat = 5, lastSplat = 6, lower = (2147483647, 0, 0), upper = (2147483647, 0, 0)\<rparr>"
    by (simp add: legal_def legal_axis_def nth3_def)
  have "\<not> axis_fits \<lparr>firstSplat = 0, lastSplat = 5, lower = (2147483647, 0, 0), upper = (2147483647, 0, 0)\<rparr>
           \<lparr>firstSplat = 5, lastSplat = 6, lower = (2147483647, 0, 0), upper = (2147483647, 0, 0)\<rparr> 0"
    by (simp add: axis_fits_def nth3_def)
  then have "\<not> differential [0] \<lparr>firstSplat = 0, lastSplat = 5, lower = (2147483647, 0, 0), upper = (2147483647, 0, 0)\<rparr>
           \<lparr>firstSplat = 5, lastSplat = 6, lower = (2147483647, 0, 0), upper = (2147483647, 0, 0)\<rparr>"
    by (simp add: differential_def)
  then show "addBlob [0] \<lparr>firstSplat = 0, lastSplat = 5, lower = (2147483647, 0, 0), upper = (2147483647, 0, 0)\<rparr>
           \<lparr>firstSplat = 5, lastSplat = 6, lower = (2147483647, 0, 0), upper = (2147483647, 0, 0)\<rparr>
       = Inr [0, 0, 5, 0, 6, 2147483647, 2147483647, 0, 0, 0, 0]"
    by (simp add: addBlob_full full_record_def nth3_def)
qed

text \<open>
  Claim C1, for splat ids below \<open>2 ^ 63\<close>. Let every blob have \<open>firstSplat < 2 ^ 63\<close>.
  Whenever \<^verbatim>\<open>addBlob\<close> writes the blobs of a file, slice after slice, and none of the
  conditions it asserts is violated, a stream built on the file (\<^verbatim>\<open>remaining = 0\<close>, \<^verbatim>\<open>curFile = 0\<close>, any current
  blob), refilled once per blob, yields exactly the blobs written, field by field and in
  order, and the next \<^verbatim>\<open>refill\<close> reports the end of the stream with the empty blob \<open>(1, 0)\<close>.
  And no asserted condition is violated when every blob is an inclusive box whose sides
  \<open>upper - lower\<close> are values of the 32-bit \<^verbatim>\<open>int\<close>: the file is then written, with or
  without assertions compiled in, and read back as said.
\<close>

theorem blob_file_round_trip:
  assumes "\<forall>b \<in> set (blobs_of slices). firstSplat b < 2 ^ 63"
  shows "(\<forall>dat. write_file slices = Inr dat \<longrightarrow>
           (\<exists>st st'.
              read_blobs [\<lparr>nBlobs = length (blobs_of slices), contents = dat\<rparr>] (initial_stream b0)
                (length (blobs_of slices)) = Inr (blobs_of slices, st)
              \<and> refill [\<lparr>nBlobs = length (blobs_of slices), contents = dat\<rparr>] st = Inr st'
              \<and> firstSplat (curBlob st') = 1 \<and> lastSplat (curBlob st') = 0))
       \<and> ((\<forall>b \<in> set (blobs_of slices). inclusive_box b) \<longrightarrow>
            (\<exists>dat. write_file slices = Inr dat))"
proof (intro conjI allI impI)
  fix dat
  assume w: "write_file slices = Inr dat"
  show "\<exists>st st'.
      read_blobs [\<lparr>nBlobs = length (blobs_of slices), contents = dat\<rparr>] (initial_stream b0)
        (length (blobs_of slices)) = Inr (blobs_of slices, st)
      \<and> refill [\<lparr>nBlobs = length (blobs_of slices), contents = dat\<rparr>] st = Inr st'
      \<and> firstSplat (curBlob st') = 1 \<and> lastSplat (curBlob st') = 0"
  proof (cases "length (blobs_of slices)")
    case 0
    then have "blobs_of slices = []" by simp
    with 0 refill_initial_empty [of dat b0] show ?thesis by auto
  next
    case (Suc m)
    let ?n = "length (blobs_of slices)"
    let ?f = "\<lparr>nBlobs = ?n, contents = dat\<rparr>"
    let ?o = "\<lparr>curBlob = b0, remaining = ?n, curFile = 0, stream = Some dat\<rparr>"
    let ?e = "?o\<lparr>curBlob := last (curBlob ?o # blobs_of slices), remaining := 0, stream := Some []\<rparr>"
    have nz: "?n \<noteq> 0" using Suc by simp
    have "read_blobs [?f] (initial_stream b0) ?n = read_blobs [?f] ?o ?n"
      unfolding Suc read_blobs.simps refill_initial [OF nz, unfolded Suc] by (rule refl)
    also have "\<dots> = Inr (blobs_of slices, ?e)"
      by (rule write_file_read_blobs [OF w assms]) simp_all
    finally have r: "read_blobs [?f] (initial_stream b0) ?n = Inr (blobs_of slices, ?e)" .
    have "\<exists>st'. refill [?f] ?e = Inr st' \<and> firstSplat (curBlob st') = 1
             \<and> lastSplat (curBlob st') = 0"
      by (rule refill_at_end) simp_all
    with r show ?thesis by blast
  qed
next
  assume "\<forall>b \<in> set (blobs_of slices). inclusive_box b"
  then show "\<exists>dat. write_file slices = Inr dat" by (rule write_file_total)
qed

theorem blob_file_round_trip_witness:
  "write_file [(\<lparr>firstSplat = 0, lastSplat = 0, lower = (0, 0, 0), upper = (0, 0, 0)\<rparr>,
       [\<lparr>firstSplat = 0, lastSplat = 5, lower = (0, 0, 0), upper = (0, 0, 0)\<rparr>,
        \<lparr>firstSplat = 5, lastSplat = 9, lower = (- 4, 0, 3), upper = (- 3, 1, 3)\<rparr>,
        \<lparr>firstSplat = 9, lastSplat = 19, lower = (- 8, 0, 3), upper = (- 7, 1, 3)\<rparr>])]
     = Inr [0, 0, 0, 5, 0, 0, 0, 0, 0, 0, 2147500940, 0, 9, 0, 19, 4294967288, 4294967289, 0, 1, 3, 3]
   \<and> (\<exists>st. read_blobs
          [\<lparr>nBlobs = 3, contents =
              [0, 0, 0, 5, 0, 0, 0, 0, 0, 0, 2147500940, 0, 9, 0, 19, 4294967288, 4294967289,
               0, 1, 3, 3]\<rparr>]
          (initial_stream \<lparr>firstSplat = 7, lastSplat = 7, lower = (1, 1, 1), upper = (1, 1, 1)\<rparr>) 3
        = Inr ([\<lparr>firstSplat = 0, lastSplat = 5, lower = (0, 0, 0), upper = (0, 0, 0)\<rparr>,
                \<lparr>firstSplat = 5, lastSplat = 9, lower = (- 4, 0, 3), upper = (- 3, 1, 3)\<rparr>,
                \<lparr>firstSplat = 9, lastSplat = 19, lower = (- 8, 0, 3), upper = (- 7, 1, 3)\<rparr>],
               st))"
proof -
  let ?sl = "[(\<lparr>firstSplat = 0, lastSplat = 0, lower = (0, 0, 0), upper = (0, 0, 0)\<rparr>,
       [\<lparr>firstSplat = 0, lastSplat = 5, lower = (0, 0, 0), upper = (0, 0, 0)\<rparr>,
        \<lparr>firstSplat = 5, lastSplat = 9, lower = (- 4, 0, 3), upper = (- 3, 1, 3)\<rparr>,
        \<lparr>firstSplat = 9, lastSplat = 19, lower = (- 8, 0, 3), upper = (- 7, 1, 3)\<rparr>])]"
  have w: "write_file ?sl
     = Inr [0, 0, 0, 5, 0, 0, 0, 0, 0, 0, 2147500940, 0, 9, 0, 19, 4294967288, 4294967289, 0, 1, 3, 3]"
    by code_simp
  have b: "blobs_of ?sl =
       [\<lparr>firstSplat = 0, lastSplat = 5, lower = (0, 0, 0), upper = (0, 0, 0)\<rparr>,
        \<lparr>firstSplat = 5, lastSplat = 9, lower = (- 4, 0, 3), upper = (- 3, 1, 3)\<rparr>,
        \<lparr>firstSplat = 9, lastSplat = 19, lower = (- 8, 0, 3), upper = (- 7, 1, 3)\<rparr>]"
    by (simp add: blobs_of_def)
  have f: "\<forall>b \<in> set (blobs_of ?sl). firstSplat b < 2 ^ 63" unfolding b by simp
  have len: "length (blobs_of ?sl) = 3" unfolding b by simp
  note t = blob_file_round_trip [OF f,
      of "\<lparr>firstSplat = 7, lastSplat = 7, lower = (1, 1, 1), upper = (1, 1, 1)\<rparr>",
      unfolded len, unfolded b, THEN conjunct1, rule_format, OF w]
  from w t show ?thesis by blast
qed

text \<open>
  The claim as it is written fails for an id with the top bit set: the first word of the
  full record then has bit 31 set and is read back as a differential record.
\<close>

theorem blob_file_round_trip_counterexample:
  "write_file [(\<lparr>firstSplat = 0, lastSplat = 5, lower = (0, 0, 0), upper = (0, 0, 0)\<rparr>,
       [\<lparr>firstSplat = 0x8000000000000000, lastSplat = 0x8000000000000001,
          lower = (0, 0, 0), upper = (0, 0, 0)\<rparr>])]
     = Inr [0x80000000, 0, 0x80000000, 1, 0, 0, 0, 0, 0, 0]
   \<and> read_blobs [\<lparr>nBlobs = 1, contents = [0x80000000, 0, 0x80000000, 1, 0, 0, 0, 0, 0, 0]\<rparr>]
         (initial_stream \<lparr>firstSplat = 0, lastSplat = 5, lower = (0, 0, 0), upper = (0, 0, 0)\<rparr>) 1
     = Inr ([\<lparr>firstSplat = 5, lastSplat = 5, lower = (0, 0, 0), upper = (0, 0, 0)\<rparr>],
            \<lparr>curBlob = \<lparr>firstSplat = 5, lastSplat = 5, lower = (0, 0, 0), upper = (0, 0, 0)\<rparr>,
               remaining = 0, curFile = 0,
               stream = Some [0, 0x80000000, 1, 0, 0, 0, 0, 0, 0]\<rparr>)
   \<and> \<lparr>firstSplat = 5, lastSplat = 5, lower = (0, 0, 0), upper = (0 :: 32 word, 0 :: 32 word, 0 :: 32 word)\<rparr>
       \<noteq> \<lparr>firstSplat = 0x8000000000000000, lastSplat = 0x8000000000000001,
            lower = (0, 0, 0), upper = (0, 0, 0)\<rparr>"
proof (intro conjI)
  show "write_file [(\<lparr>firstSplat = 0, lastSplat = 5, lower = (0, 0, 0), upper = (0, 0, 0)\<rparr>,
       [\<lparr>firstSplat = 0x8000000000000000, lastSplat = 0x8000000000000001,
          lower = (0, 0, 0), upper = (0, 0, 0)\<rparr>])]
     = Inr [0x80000000, 0, 0x80000000, 1, 0, 0, 0, 0, 0, 0]"
    by code_simp
  show "read_blobs [\<lparr>nBlobs = 1, contents = [0x80000000, 0, 0x80000000, 1, 0, 0, 0, 0, 0, 0]\<rparr>]
         (initial_stream \<lparr>firstSplat = 0, lastSplat = 5, lower = (0, 0, 0), upper = (0, 0, 0)\<rparr>) 1
     = Inr ([\<lparr>firstSplat = 5, lastSplat = 5, lower = (0, 0, 0), upper = (0, 0, 0)\<rparr>],
            \<lparr>curBlob = \<lparr>firstSplat = 5, lastSplat = 5, lower = (0, 0, 0), upper = (0, 0, 0)\<rparr>,
               remaining = 0, curFile = 0,
               stream = Some [0, 0x80000000, 1, 0, 0, 0, 0, 0, 0]\<rparr>)"
    by code_simp
  show "\<lparr>firstSplat = 5, lastSplat = 5, lower = (0, 0, 0), upper = (0 :: 32 word, 0 :: 32 word, 0 :: 32 word)\<rparr>
       \<noteq> \<lparr>firstSplat = 0x8000000000000000, lastSplat = 0x8000000000000001,
            lower = (0, 0, 0), upper = (0, 0, 0)\<rparr>"
    by simp
qed

section \<open>Properties of the Morton code\<close>

lemma interleave3_zero: "interleave3 L 0 0 0 = 0" by (induction L) auto

lemma digit_bound: "(a :: nat) < 2 \<Longrightarrow> b < 2 \<Longrightarrow> c < 2 \<Longrightarrow> a + 2 * b + 4 * c < 8"
  by linarith

lemma digit_lt_8: "(x :: nat) mod 2 + 2 * (y mod 2) + 4 * (z mod 2) < 8"
  by (rule digit_bound) simp_all

lemma interleave3_less: "interleave3 L x y z < 8 ^ L"
proof (induction L arbitrary: x y z)
  case 0 show ?case by simp
next
  case (Suc L)
  have "x mod 2 + 2 * (y mod 2) + 4 * (z mod 2) < 8" by (rule digit_lt_8)
  with Suc [of "x div 2" "y div 2" "z div 2"] show ?case by simp
qed

lemma base_split:
  assumes "(a :: nat) < n" "a' < n" "a + n * r = a' + n * r'"
  shows "a = a' \<and> r = r'"
proof -
  have "(a + n * r) div n = r" "(a' + n * r') div n = r'" using assms(1,2) by simp_all
  with assms(3) have "r = r'" by simp
  with assms(3) show ?thesis by simp
qed

lemma bits3_split:
  assumes "(a :: nat) < 2" "b < 2" "c < 2" "a' < 2" "b' < 2" "c' < 2"
    and "a + 2 * b + 4 * c = a' + 2 * b' + 4 * c'"
  shows "a = a' \<and> b = b' \<and> c = c'"
proof -
  from assms(7) have "a + 2 * (b + 2 * c) = a' + 2 * (b' + 2 * c')" by simp
  from base_split [OF assms(1,4) this] have a: "a = a'" and r: "b + 2 * c = b' + 2 * c'"
    by simp_all
  from base_split [OF assms(2,5) r] a show ?thesis by simp
qed

lemma octal_digit_bits:
  "(c :: nat) mod 2 + 2 * ((c div 2) mod 2) + 4 * ((c div 4) mod 2) + 8 * (c div 8) = c"
proof -
  define q1 q2 q3 a b e where "q1 = c div 2" and "q2 = q1 div 2" and "q3 = q2 div 2"
    and "a = c mod 2" and "b = q1 mod 2" and "e = q2 mod 2"
  have 1: "c = a + 2 * q1" by (simp add: a_def q1_def)
  have 2: "q1 = b + 2 * q2" by (simp add: b_def q2_def)
  have 3: "q2 = e + 2 * q3" by (simp add: e_def q3_def)
  have "q2 = c div 4" "q3 = c div 8"
    by (simp_all add: q1_def q2_def q3_def div_mult2_eq [symmetric])
  moreover have "a + 2 * b + 4 * e + 8 * q3 = c" using 1 2 3 by linarith
  ultimately show ?thesis by (simp add: a_def b_def e_def q1_def)
qed

lemma div_mod_2_eq: "(x :: nat) div 2 = x' div 2 \<Longrightarrow> x mod 2 = x' mod 2 \<Longrightarrow> x = x'"
  by (metis div_mult_mod_eq)

lemma interleave3_inj:
  "x < 2 ^ L \<Longrightarrow> y < 2 ^ L \<Longrightarrow> z < 2 ^ L \<Longrightarrow> x' < 2 ^ L \<Longrightarrow> y' < 2 ^ L \<Longrightarrow> z' < 2 ^ L
   \<Longrightarrow> interleave3 L x y z = interleave3 L x' y' z' \<Longrightarrow> x = x' \<and> y = y' \<and> z = z'"
proof (induction L arbitrary: x y z x' y' z')
  case 0
  then show ?case by simp
next
  case (Suc L)
  define d where "d = x mod 2 + 2 * (y mod 2) + 4 * (z mod 2)"
  define d' where "d' = x' mod 2 + 2 * (y' mod 2) + 4 * (z' mod 2)"
  define r where "r = interleave3 L (x div 2) (y div 2) (z div 2)"
  define r' where "r' = interleave3 L (x' div 2) (y' div 2) (z' div 2)"
  have m: "x mod 2 < 2" "y mod 2 < 2" "z mod 2 < 2" "x' mod 2 < 2" "y' mod 2 < 2" "z' mod 2 < 2"
    by simp_all
  have d: "d < 8" "d' < 8" unfolding d_def d'_def by (rule digit_lt_8)+
  from Suc.prems(7) have "d + 8 * r = d' + 8 * r'" by (simp add: d_def d'_def r_def r'_def)
  from base_split [OF d this] have dd: "d = d'" and rr: "r = r'" by simp_all
  have h: "x div 2 < 2 ^ L" "y div 2 < 2 ^ L" "z div 2 < 2 ^ L"
    "x' div 2 < 2 ^ L" "y' div 2 < 2 ^ L" "z' div 2 < 2 ^ L"
    using Suc.prems(1-6) by simp_all
  from Suc.IH [OF h] rr
  have q: "x div 2 = x' div 2" "y div 2 = y' div 2" "z div 2 = z' div 2"
    by (simp_all add: r_def r'_def)
  from bits3_split [OF m] dd
  have p: "x mod 2 = x' mod 2" "y mod 2 = y' mod 2" "z mod 2 = z' mod 2"
    by (simp_all add: d_def d'_def)
  from div_mod_2_eq [OF q(1) p(1)] div_mod_2_eq [OF q(2) p(2)] div_mod_2_eq [OF q(3) p(3)]
  show ?case by simp
qed

lemma interleave3_surj:
  "c < 8 ^ L \<Longrightarrow> \<exists>x y z. x < 2 ^ L \<and> y < 2 ^ L \<and> z < 2 ^ L \<and> interleave3 L x y z = c"
proof (induction L arbitrary: c)
  case 0
  then show ?case by simp
next
  case (Suc L)
  then have "c div 8 < 8 ^ L" by simp
  from Suc.IH [OF this] obtain x y z
    where xyz: "x < 2 ^ L" "y < 2 ^ L" "z < 2 ^ L" "interleave3 L x y z = c div 8" by blast
  define a b e where "a = c mod 2" and "b = (c div 2) mod 2" and "e = (c div 4) mod 2"
  have ab: "a < 2" "b < 2" "e < 2" by (simp_all add: a_def b_def e_def)
  have c8: "a + 2 * b + 4 * e + 8 * (c div 8) = c"
    unfolding a_def b_def e_def by (rule octal_digit_bits)
  have "2 * x + a < 2 ^ Suc L" "2 * y + b < 2 ^ Suc L" "2 * z + e < 2 ^ Suc L"
    using xyz(1-3) ab by simp_all
  moreover have "interleave3 (Suc L) (2 * x + a) (2 * y + b) (2 * z + e) = c"
  proof -
    have "(2 * x + a) div 2 = x" "(2 * y + b) div 2 = y" "(2 * z + e) div 2 = z"
      using ab by simp_all
    moreover have "(2 * x + a) mod 2 = a" "(2 * y + b) mod 2 = b" "(2 * z + e) mod 2 = e"
      using ab by simp_all
    ultimately show ?thesis using xyz(4) c8 by simp
  qed
  ultimately show ?case by blast
qed

lemma odd_low: "odd ((a :: nat) mod 2 + 2 * m) = odd a"
  by simp
lemma div_low: "((a :: nat) mod 2 + 2 * m) div 2 = m"
  by simp
lemma digit_nested:
  "(x :: nat) mod 2 + 2 * (y mod 2) + 4 * (z mod 2) + 8 * r
     = x mod 2 + 2 * (y mod 2 + 2 * (z mod 2 + 2 * r))"
  by simp
lemma digit_odds:
  fixes x y z r :: nat
  defines "n \<equiv> x mod 2 + 2 * (y mod 2) + 4 * (z mod 2) + 8 * r"
  shows "odd n = odd x" "odd (n div 2) = odd y" "odd (n div 4) = odd z"
proof -
  have n: "n = x mod 2 + 2 * (y mod 2 + 2 * (z mod 2 + 2 * r))" by (simp add: n_def)
  show "odd n = odd x" unfolding n by (rule odd_low)
  have h: "n div 2 = y mod 2 + 2 * (z mod 2 + 2 * r)" unfolding n by (rule div_low)
  show "odd (n div 2) = odd y" unfolding h by (rule odd_low)
  have "n div 4 = n div 2 div 2" by (simp add: div_mult2_eq [symmetric])
  also have "\<dots> = z mod 2 + 2 * r" unfolding h by (rule div_low)
  finally show "odd (n div 4) = odd z" by (simp only: odd_low)
qed

lemma bit_add3: "bit (a :: nat) (n + 3) = bit (a div 8) n"
proof -
  have "bit a (n + 3) = bit (drop_bit 3 a) n" by (simp add: bit_drop_bit_eq add.commute)
  then show ?thesis by (simp add: drop_bit_eq_div)
qed

lemma interleave3_bits:
  "bit (interleave3 L x y z) (3 * k) = (k < L \<and> bit x k)
   \<and> bit (interleave3 L x y z) (3 * k + 1) = (k < L \<and> bit y k)
   \<and> bit (interleave3 L x y z) (3 * k + 2) = (k < L \<and> bit z k)"
proof (induction L arbitrary: x y z k)
  case 0
  show ?case by simp
next
  case (Suc L)
  let ?d = "x mod 2 + 2 * (y mod 2) + 4 * (z mod 2)"
  let ?r = "interleave3 L (x div 2) (y div 2) (z div 2)"
  have d: "?d < 8" by (rule digit_lt_8)
  show ?case
  proof (cases k)
    case 0
    have "odd (?d + 8 * ?r) = odd x" by (rule digit_odds)
    moreover have "odd ((?d + 8 * ?r) div 2) = odd y" by (rule digit_odds)
    moreover have "odd ((?d + 8 * ?r) div 4) = odd z" by (rule digit_odds)
    ultimately show ?thesis using 0 by (simp add: bit_iff_odd)
  next
    case (Suc k')
    have q: "(?d + 8 * ?r) div 8 = ?r" using d by simp
    have e: "3 * k = 3 * k' + 3" "3 * k + 1 = (3 * k' + 1) + 3" "3 * k + 2 = (3 * k' + 2) + 3"
      using Suc by simp_all
    have il: "interleave3 (Suc L) x y z = ?d + 8 * ?r" by simp
    have "bit (interleave3 (Suc L) x y z) (3 * k) = bit ?r (3 * k')"
      by (simp only: il e(1) bit_add3 q)
    moreover have "bit (interleave3 (Suc L) x y z) (3 * k + 1) = bit ?r (3 * k' + 1)"
      by (simp only: il e(2) bit_add3 q)
    moreover have "bit (interleave3 (Suc L) x y z) (3 * k + 2) = bit ?r (3 * k' + 2)"
      by (simp only: il e(3) bit_add3 q)
    ultimately show ?thesis using Suc.IH [of "x div 2" "y div 2" "z div 2" k'] Suc
      by (simp add: bit_Suc)
  qed
qed

lemma unat_and_1: "unat ((w :: code_type) AND 1) = unat w mod 2"
  by (simp add: and_one_eq unat_mod)

lemma unat_push_bit_small:
  "2 ^ n * unat (w :: code_type) < 2 ^ 32 \<Longrightarrow> unat (push_bit n w) = 2 ^ n * unat w"
  unfolding unsigned_push_bit_eq
  by (simp add: take_bit_nat_eq_self push_bit_eq_mult mult.commute)

lemma unat_add_small:
  "unat (a :: code_type) + unat b < 2 ^ 32 \<Longrightarrow> unat (a + b) = unat a + unat b"
  using unat_add_lem [of a b] by simp

lemma unat_digit:
  "unat (((x :: code_type) AND 1) + push_bit 1 (y AND 1) + push_bit 2 (z AND 1))
     = unat x mod 2 + 2 * (unat y mod 2) + 4 * (unat z mod 2)"
proof -
  define a b c where "a = x AND 1" and "b = push_bit 1 (y AND 1)" and "c = push_bit 2 (z AND 1)"
  have a: "unat a = unat x mod 2" by (simp add: a_def unat_and_1)
  have "unat (push_bit 1 (y AND 1)) = 2 ^ 1 * unat (y AND 1)"
    by (rule unat_push_bit_small) (simp add: unat_and_1)
  then have b: "unat b = 2 * (unat y mod 2)" by (simp add: b_def unat_and_1)
  have "unat (push_bit 2 (z AND 1)) = 2 ^ 2 * unat (z AND 1)"
    by (rule unat_push_bit_small) (simp add: unat_and_1)
  then have c: "unat c = 4 * (unat z mod 2)" by (simp add: c_def unat_and_1)
  have ab: "unat (a + b) = unat a + unat b" by (rule unat_add_small) (simp add: a b)
  have "unat (a + b + c) = unat (a + b) + unat c" by (rule unat_add_small) (simp add: ab a b c)
  with ab a b c show ?thesis unfolding a_def b_def c_def by simp
qed

lemma unat_half: "unat (drop_bit 1 (w :: code_type)) = unat w div 2"
  by (simp add: drop_bit_eq_div unat_div)

lemma unat_acc:
  assumes "unat (ans :: code_type) < 2 ^ s" "s + 3 \<le> 32" "unat (d :: code_type) < 8"
  shows "unat (ans + push_bit s d) = unat ans + 2 ^ s * unat d"
    and "unat (ans + push_bit s d) < 2 ^ (s + 3)"
proof -
  have "2 ^ s * unat d \<le> (2 ^ s * 7 :: nat)" using assms(3) by (intro mult_le_mono2) simp
  then have lt: "unat ans + 2 ^ s * unat d < 2 ^ s * 8" using assms(1) by linarith
  have "(2 ^ s * 8 :: nat) = 2 ^ (s + 3)" by (simp add: power_add)
  also have "\<dots> \<le> 2 ^ 32" using assms(2) by (intro power_increasing) simp_all
  finally have b: "(2 ^ s * 8 :: nat) \<le> 2 ^ 32" .
  have m: "unat (push_bit s d) = 2 ^ s * unat d"
    by (rule unat_push_bit_small) (use lt b in simp)
  have "unat (ans + push_bit s d) = unat ans + unat (push_bit s d)"
    by (rule unat_add_small) (use lt b m in simp)
  with m show "unat (ans + push_bit s d) = unat ans + 2 ^ s * unat d" by simp
  then show "unat (ans + push_bit s d) < 2 ^ (s + 3)" using lt by (simp add: power_add)
qed

lemma makeCode_loop_interleave3:
  "unat x < 2 ^ L \<Longrightarrow> unat y < 2 ^ L \<Longrightarrow> unat z < 2 ^ L \<Longrightarrow> unat ans < 2 ^ s \<Longrightarrow> s + 3 * L \<le> 32
   \<Longrightarrow> \<exists>s' a'. makeCode_loop x y z s ans = (s', a') \<and> s' \<le> s + 3 * L
         \<and> unat a' = unat ans + 2 ^ s * interleave3 L (unat x) (unat y) (unat z)"
proof (induction L arbitrary: x y z s ans)
  case 0
  then have "x = 0" "y = 0" "z = 0" by (simp_all add: unat_eq_0)
  then show ?case by (simp add: makeCode_loop.simps)
next
  case (Suc L)
  show ?case
  proof (cases "x \<noteq> 0 \<or> y \<noteq> 0 \<or> z \<noteq> 0")
    case False
    then show ?thesis by (simp add: makeCode_loop.simps interleave3_zero)
  next
    case True
    let ?d = "(x AND 1) + push_bit 1 (y AND 1) + push_bit 2 (z AND 1)"
    have d8: "unat ?d < 8" unfolding unat_digit by (rule digit_lt_8)
    have s3: "s + 3 \<le> 32" using Suc.prems(5) by simp
    note acc = unat_acc [OF Suc.prems(4) s3 d8]
    have h: "unat (drop_bit 1 x) < 2 ^ L" "unat (drop_bit 1 y) < 2 ^ L" "unat (drop_bit 1 z) < 2 ^ L"
      using Suc.prems(1-3) unfolding unat_half by simp_all
    have "s + 3 + 3 * L \<le> 32" using Suc.prems(5) by simp
    from Suc.IH [OF h acc(2) this] obtain s' a' where
      r: "makeCode_loop (drop_bit 1 x) (drop_bit 1 y) (drop_bit 1 z) (s + 3) (ans + push_bit s ?d) = (s', a')"
      and b: "s' \<le> s + 3 + 3 * L"
      and v: "unat a' = unat (ans + push_bit s ?d) + 2 ^ (s + 3) * interleave3 L (unat (drop_bit 1 x)) (unat (drop_bit 1 y)) (unat (drop_bit 1 z))"
      by blast
    have "makeCode_loop x y z s ans = (s', a')"
      using True r by (simp add: makeCode_loop.simps [of x y z s ans] Let_def)
    moreover have "s' \<le> s + 3 * Suc L" using b by simp
    moreover have "unat a' = unat ans + 2 ^ s * interleave3 (Suc L) (unat x) (unat y) (unat z)"
      unfolding v acc(1) unat_digit unat_half by (simp add: power_add algebra_simps)
    ultimately show ?thesis by blast
  qed
qed

lemma unat_pow2: "n < 32 \<Longrightarrow> unat (2 ^ n :: code_type) = 2 ^ n"
proof -
  assume "n < 32"
  then have "(2 :: nat) ^ n < 2 ^ 32" by (intro power_strict_increasing) simp_all
  then have "unat (push_bit n (1 :: code_type)) = 2 ^ n * unat (1 :: code_type)"
    by (intro unat_push_bit_small) simp
  then show ?thesis by (simp add: push_bit_eq_mult)
qed

lemma code_less_pow_iff: "n < 32 \<Longrightarrow> (w :: code_type) < 2 ^ n \<longleftrightarrow> unat w < 2 ^ n"
  by (simp add: word_less_nat_alt unat_pow2)

lemma makeCode_interleave3:
  assumes "3 * L < 32" "unat x < 2 ^ L" "unat y < 2 ^ L" "unat z < 2 ^ L"
  shows "\<exists>c. makeCode x y z = Inr c \<and> unat c = interleave3 L (unat x) (unat y) (unat z)"
proof -
  have "unat (0 :: code_type) < 2 ^ 0" by simp
  moreover have "0 + 3 * L \<le> 32" using assms(1) by simp
  ultimately obtain s' a' where r: "makeCode_loop x y z 0 0 = (s', a')" and b: "s' \<le> 0 + 3 * L"
    and v: "unat a' = unat (0 :: code_type) + 2 ^ 0 * interleave3 L (unat x) (unat y) (unat z)"
    using makeCode_loop_interleave3 [OF assms(2-4), of 0 0] by blast
  from b assms(1) have "s' < 32" by simp
  with r v show ?thesis by (simp add: makeCode_def)
qed

lemma bit_unat_small: "unat (w :: code_type) < 2 ^ L \<Longrightarrow> (k < L \<and> bit (unat w) k) = bit w k"
proof -
  assume "unat w < 2 ^ L"
  then have "take_bit L (unat w) = unat w" by (simp add: take_bit_nat_eq_self)
  then have "bit (unat w) k = (k < L \<and> bit (unat w) k)" by (metis bit_take_bit_iff)
  then show ?thesis by (auto simp: bit_unsigned_iff)
qed

lemma makeCode_props:
  assumes L: "3 * L < 32"
  shows "(\<forall>x y z. x < 2 ^ L \<and> y < 2 ^ L \<and> z < 2 ^ L \<longrightarrow>
            (\<exists>c. makeCode x y z = Inr c \<and>
               (\<forall>k. bit c (3 * k) = bit x k \<and> bit c (3 * k + 1) = bit y k
                   \<and> bit c (3 * k + 2) = bit z k)))
     \<and> bij_betw (\<lambda>(x, y, z). makeCode x y z)
          {(x, y, z). x < 2 ^ L \<and> y < 2 ^ L \<and> z < 2 ^ L} (Inr ` {c. c < 2 ^ (3 * L)})"
proof (intro conjI allI impI)
  have L32: "L < 32" using L by simp
  note lt = code_less_pow_iff [OF L32]
  note lt3 = code_less_pow_iff [OF L]
  {
    fix x y z :: code_type
    assume "x < 2 ^ L \<and> y < 2 ^ L \<and> z < 2 ^ L"
    then have b: "unat x < 2 ^ L" "unat y < 2 ^ L" "unat z < 2 ^ L" by (simp_all add: lt)
    from makeCode_interleave3 [OF L b] obtain c where c: "makeCode x y z = Inr c"
      and u: "unat c = interleave3 L (unat x) (unat y) (unat z)" by blast
    have "\<forall>k. bit c (3 * k) = bit x k \<and> bit c (3 * k + 1) = bit y k \<and> bit c (3 * k + 2) = bit z k"
    proof
      fix k
      have "bit c (3 * k) = bit (unat c) (3 * k)" "bit c (3 * k + 1) = bit (unat c) (3 * k + 1)"
        "bit c (3 * k + 2) = bit (unat c) (3 * k + 2)" by (simp_all add: bit_unsigned_iff)
      then show "bit c (3 * k) = bit x k \<and> bit c (3 * k + 1) = bit y k \<and> bit c (3 * k + 2) = bit z k"
        unfolding u using interleave3_bits [of L "unat x" "unat y" "unat z" k] bit_unat_small [OF b(1), of k]
          bit_unat_small [OF b(2), of k] bit_unat_small [OF b(3), of k] by simp
    qed
    with c show "\<exists>c. makeCode x y z = Inr c \<and>
               (\<forall>k. bit c (3 * k) = bit x k \<and> bit c (3 * k + 1) = bit y k
                   \<and> bit c (3 * k + 2) = bit z k)" by blast
  }
  let ?A = "{(x :: code_type, y :: code_type, z :: code_type). x < 2 ^ L \<and> y < 2 ^ L \<and> z < 2 ^ L}"
  let ?f = "\<lambda>(x, y, z). makeCode x y z"
  have inj: "inj_on ?f ?A"
  proof (rule inj_onI)
    fix p q assume p: "p \<in> ?A" and q: "q \<in> ?A" and e: "?f p = ?f q"
    obtain x y z where pp: "p = (x, y, z)" by (cases p) auto
    obtain x' y' z' where qq: "q = (x', y', z')" by (cases q) auto
    from p pp have b: "unat x < 2 ^ L" "unat y < 2 ^ L" "unat z < 2 ^ L" by (simp_all add: lt)
    from q qq have b': "unat x' < 2 ^ L" "unat y' < 2 ^ L" "unat z' < 2 ^ L" by (simp_all add: lt)
    from makeCode_interleave3 [OF L b] obtain c where c: "makeCode x y z = Inr c"
      and u: "unat c = interleave3 L (unat x) (unat y) (unat z)" by blast
    from makeCode_interleave3 [OF L b'] obtain c' where c': "makeCode x' y' z' = Inr c'"
      and u': "unat c' = interleave3 L (unat x') (unat y') (unat z')" by blast
    from e pp qq c c' have "c = c'" by simp
    with u u' have "interleave3 L (unat x) (unat y) (unat z) = interleave3 L (unat x') (unat y') (unat z')" by simp
    from interleave3_inj [OF b b' this] have "x = x' \<and> y = y' \<and> z = z'" by (simp add: word_unat_eq_iff)
    with pp qq show "p = q" by simp
  qed
  have img: "?f ` ?A = Inr ` {c. c < 2 ^ (3 * L)}"
  proof (intro set_eqI iffI)
    fix r :: "error + code_type" assume "r \<in> ?f ` ?A"
    then obtain x y z where r: "r = makeCode x y z" and a: "x < 2 ^ L" "y < 2 ^ L" "z < 2 ^ L" by auto
    from a have b: "unat x < 2 ^ L" "unat y < 2 ^ L" "unat z < 2 ^ L" by (simp_all add: lt)
    from makeCode_interleave3 [OF L b] obtain c where c: "makeCode x y z = Inr c"
      and u: "unat c = interleave3 L (unat x) (unat y) (unat z)" by blast
    have "unat c < 2 ^ (3 * L)" unfolding u using interleave3_less [of L "unat x" "unat y" "unat z"]
      by (simp add: power_mult)
    with lt3 have "c < 2 ^ (3 * L)" by blast
    with r c show "r \<in> Inr ` {c. c < 2 ^ (3 * L)}" by simp
  next
    fix r :: "error + code_type" assume "r \<in> Inr ` {c :: code_type. c < 2 ^ (3 * L)}"
    then obtain c :: code_type where r: "r = Inr c" and cl: "c < 2 ^ (3 * L)" by auto
    from cl lt3 have "unat c < 2 ^ (3 * L)" by blast
    then have "unat c < 8 ^ L" by (simp add: power_mult)
    from interleave3_surj [OF this] obtain x y z where n: "x < 2 ^ L" "y < 2 ^ L" "z < 2 ^ L"
      and i: "interleave3 L x y z = unat c" by blast
    have "(2 :: nat) ^ L < 2 ^ 32" using L32 by (intro power_strict_increasing) simp_all
    with n have big: "x < 2 ^ 32" "y < 2 ^ 32" "z < 2 ^ 32" by simp_all
    let ?x = "of_nat x :: code_type" and ?y = "of_nat y :: code_type" and ?z = "of_nat z :: code_type"
    have un: "unat ?x = x" "unat ?y = y" "unat ?z = z"
      using big by (simp_all add: unsigned_of_nat take_bit_nat_eq_self)
    have b: "unat ?x < 2 ^ L" "unat ?y < 2 ^ L" "unat ?z < 2 ^ L" using n un by simp_all
    from makeCode_interleave3 [OF L b] obtain c' where c': "makeCode ?x ?y ?z = Inr c'"
      and u: "unat c' = interleave3 L (unat ?x) (unat ?y) (unat ?z)" by blast
    from u un i have "c' = c" by (simp add: word_unat_eq_iff)
    moreover have "(?x, ?y, ?z) \<in> ?A" using b by (simp add: lt)
    ultimately show "r \<in> ?f ` ?A" using r c' by (metis (no_types, lifting) image_eqI case_prod_conv)
  qed
  show "bij_betw ?f ?A (Inr ` {c. c < 2 ^ (3 * L)})"
    using inj img by (simp add: bij_betw_def)
qed

text \<open>
  Claim C4. For every \<open>L\<close> with \<open>3 L\<close> below the 32 bits of the code type, \<^verbatim>\<open>makeCode\<close>
  returns, on coordinates below \<open>2 ^ L\<close>, the code whose bit \<open>3 k\<close> is bit \<open>k\<close> of \<open>x\<close>,
  whose bit \<open>3 k + 1\<close> is bit \<open>k\<close> of \<open>y\<close> and whose bit \<open>3 k + 2\<close> is bit \<open>k\<close> of \<open>z\<close>; it
  is a bijection from the triples of coordinates below \<open>2 ^ L\<close> onto the codes below
  \<open>2 ^ (3 L)\<close>; and \<open>makeCode(2,5,3) = 174\<close>, \<open>makeCode(7,7,7) = 511\<close>,
  \<open>makeCode(0,0,0) = 0\<close>.
\<close>

theorem makeCode_interleaves_bijectively:
  assumes "3 * L < 32"
  shows "(\<forall>x y z. x < 2 ^ L \<and> y < 2 ^ L \<and> z < 2 ^ L \<longrightarrow>
            (\<exists>c. makeCode x y z = Inr c \<and>
               (\<forall>k. bit c (3 * k) = bit x k \<and> bit c (3 * k + 1) = bit y k
                   \<and> bit c (3 * k + 2) = bit z k)))
     \<and> bij_betw (\<lambda>(x, y, z). makeCode x y z)
          {(x, y, z). x < 2 ^ L \<and> y < 2 ^ L \<and> z < 2 ^ L} (Inr ` {c. c < 2 ^ (3 * L)})
     \<and> makeCode 2 5 3 = Inr 174 \<and> makeCode 7 7 7 = Inr 511 \<and> makeCode 0 0 0 = Inr 0"
proof -
  have "makeCode 2 5 3 = Inr 174" by code_simp
  moreover have "makeCode 7 7 7 = Inr 511" by code_simp
  moreover have "makeCode 0 0 0 = Inr 0" by code_simp
  ultimately show ?thesis using makeCode_props [OF assms] by blast
qed

theorem makeCode_interleaves_bijectively_witness:
  "(3 :: nat) * 3 < 32
   \<and> bij_betw (\<lambda>(x, y, z). makeCode x y z)
        {(x, y, z). x < 2 ^ 3 \<and> y < 2 ^ 3 \<and> z < 2 ^ 3} (Inr ` {c. c < 2 ^ (3 * 3)})
   \<and> makeCode 2 5 3 = Inr 174"
proof -
  have h: "(3 :: nat) * 3 < 32" by simp
  from makeCode_interleaves_bijectively [OF h] h show ?thesis by blast
qed

section \<open>Properties of range coalescing\<close>

lemma unat_ucast_32_64: "unat (ucast (w :: 32 word) :: 64 word) = unat w"
proof -
  have "unat w < 2 ^ 32" using unsigned_less [of w] by simp
  then have "unat w < 2 ^ 64" by simp
  then show ?thesis by (simp add: unsigned_ucast_eq take_bit_nat_eq_self)
qed

lemma index_eq_ucast_iff: "(d :: 64 word) = ucast (w :: 32 word) \<longleftrightarrow> unat d = unat w"
  by (metis unat_ucast_32_64 word_unat_eq_iff)

lemma size_type_max_iff: "(w :: 32 word) = - 1 \<longleftrightarrow> unat w = 2 ^ 32 - 1"
proof -
  have "unat (- 1 :: 32 word) = 2 ^ 32 - 1"
    by (simp add: unsigned_minus_1_eq_mask mask_eq_exp_minus_1)
  then show ?thesis by (metis word_unat_eq_iff)
qed

lemmas SplatRange_append_simps =
  SplatRange_append_def word_le_nat_alt unat_sub unat_ucast_32_64 index_eq_ucast_iff
  size_type_max_iff

text \<open>
  Claim C5, as the code has it. \<^verbatim>\<open>append(scan', splatId)\<close> returns true if and only if the
  range is empty, or \<open>scan'\<close> is the stored scan and \<open>start \<le> splatId \<le> start + size\<close>
  (as integers, without wrap-around), unless \<open>splatId = start + size\<close> while the size is the
  largest value of its type. An empty range becomes \<open>(scan', splatId, 1)\<close>; on success with
  \<open>splatId = start + size\<close> the size grows by exactly one; on success with an id that the
  range already covers, and whenever false is returned, the range is left as it was.
\<close>

theorem SplatRange_append_spec:
  "fst (SplatRange_append r s x) =
     (size_r r = 0 \<or>
      (s = scan r \<and> unat (start r) \<le> unat x \<and> unat x \<le> unat (start r) + unat (size_r r) \<and>
       \<not> (unat x = unat (start r) + unat (size_r r) \<and> unat (size_r r) = 2 ^ 32 - 1)))
   \<and> snd (SplatRange_append r s x) =
     (if size_r r = 0 then \<lparr>scan = s, size_r = 1, start = x\<rparr>
      else if fst (SplatRange_append r s x) \<and> unat x = unat (start r) + unat (size_r r)
      then r\<lparr>size_r := size_r r + 1\<rparr> else r)
   \<and> (size_r r \<noteq> 0 \<and> fst (SplatRange_append r s x) \<and> unat x = unat (start r) + unat (size_r r)
        \<longrightarrow> unat (size_r (snd (SplatRange_append r s x))) = unat (size_r r) + 1)"
proof (intro conjI)
  show "fst (SplatRange_append r s x) =
     (size_r r = 0 \<or>
      (s = scan r \<and> unat (start r) \<le> unat x \<and> unat x \<le> unat (start r) + unat (size_r r) \<and>
       \<not> (unat x = unat (start r) + unat (size_r r) \<and> unat (size_r r) = 2 ^ 32 - 1)))"
    by (auto simp: SplatRange_append_simps)
  show "snd (SplatRange_append r s x) =
     (if size_r r = 0 then \<lparr>scan = s, size_r = 1, start = x\<rparr>
      else if fst (SplatRange_append r s x) \<and> unat x = unat (start r) + unat (size_r r)
      then r\<lparr>size_r := size_r r + 1\<rparr> else r)"
    by (auto simp: SplatRange_append_simps)
  show "size_r r \<noteq> 0 \<and> fst (SplatRange_append r s x) \<and> unat x = unat (start r) + unat (size_r r)
        \<longrightarrow> unat (size_r (snd (SplatRange_append r s x))) = unat (size_r r) + 1"
  proof (intro impI, elim conjE)
    assume nz: "size_r r \<noteq> 0" and ok: "fst (SplatRange_append r s x)"
      and at: "unat x = unat (start r) + unat (size_r r)"
    from nz ok at have "unat (size_r r) \<noteq> 2 ^ 32 - 1"
      by (auto simp: SplatRange_append_simps split: if_splits)
    moreover have "unat (size_r r) < 2 ^ 32" using unsigned_less [of "size_r r"] by simp
    ultimately have "unat (size_r r + 1) = unat (size_r r) + 1"
      by (simp add: unat_word_ariths)
    with nz ok at show "unat (size_r (snd (SplatRange_append r s x))) = unat (size_r r) + 1"
      by (auto simp: SplatRange_append_simps split: if_splits)
  qed
qed

theorem SplatRange_append_spec_witness:
  "fst (SplatRange_append \<lparr>scan = 0, size_r = 3, start = 5\<rparr> 0 8)
   \<and> snd (SplatRange_append \<lparr>scan = 0, size_r = 3, start = 5\<rparr> 0 8)
       = \<lparr>scan = 0, size_r = 4, start = 5\<rparr>
   \<and> unat (size_r (snd (SplatRange_append \<lparr>scan = 0, size_r = 3, start = 5\<rparr> 0 8))) = 3 + 1"
  using SplatRange_append_spec [of "\<lparr>scan = 0, size_r = 3, start = 5\<rparr>" 0 8]
  by simp

text \<open>
  The claim as it is written fails: an id inside the range is not contiguous with
  \<open>start + size\<close>, and the call returns true all the same (the range is unchanged).
\<close>

theorem SplatRange_append_counterexample:
  "size_r \<lparr>scan = 0, size_r = 3, start = 5\<rparr> \<noteq> 0
   \<and> (6 :: index_type) \<noteq> start \<lparr>scan = 0, size_r = 3, start = 5\<rparr>
         + ucast (size_r \<lparr>scan = 0, size_r = 3, start = 5\<rparr>)
   \<and> SplatRange_append \<lparr>scan = 0, size_r = 3, start = 5\<rparr> 0 6
       = (True, \<lparr>scan = 0, size_r = 3, start = 5\<rparr>)"
  by (simp add: SplatRange_append_def)

section \<open>Properties of reading a splat stream\<close>

lemma read_inner_written:
  "read_inner owner isFinite end cur count out = (cur', count', out')
   \<Longrightarrow> \<exists>new. out' = out @ new \<and> length new + count' = count
         \<and> (\<forall>(s, i) \<in> set new. isFinite s \<and> i < end \<and> s = owner ! i)"
proof (induction owner isFinite "end" cur count out rule: read_inner.induct)
  case (1 owner isFinite "end" cur count out)
  show ?case
  proof (cases "cur < end \<and> count > 0")
    case False
    with "1.prems" show ?thesis
      by (auto simp: read_inner.simps [of owner isFinite "end" cur count out])
  next
    case True
    show ?thesis
    proof (cases "isFinite (owner ! cur)")
      case fin: True
      with True "1.prems"
      have "read_inner owner isFinite end (cur + 1) (count - 1) (out @ [(owner ! cur, cur)])
              = (cur', count', out')"
        by (simp add: read_inner.simps [of owner isFinite "end" cur count out])
      from "1.IH"(1) [OF True fin this] obtain new
        where n: "out' = (out @ [(owner ! cur, cur)]) @ new" "length new + count' = count - 1"
          "\<forall>(s, i) \<in> set new. isFinite s \<and> i < end \<and> s = owner ! i" by blast
      let ?new = "(owner ! cur, cur) # new"
      have "out' = out @ ?new" using n(1) by simp
      moreover have "length ?new + count' = count" using n(2) True by simp
      moreover have "\<forall>(s, i) \<in> set ?new. isFinite s \<and> i < end \<and> s = owner ! i"
        using n(3) fin True by simp
      ultimately show ?thesis by blast
    next
      case nfin: False
      with True "1.prems"
      have "read_inner owner isFinite end (cur + 1) count out = (cur', count', out')"
        by (simp add: read_inner.simps [of owner isFinite "end" cur count out])
      from "1.IH"(2) [OF True nfin this] show ?thesis .
    qed
  qed
qed

lemma read_loop_written:
  "read_loop owner isFinite rs cur count out = (rs', cur', count', out')
   \<Longrightarrow> \<exists>new. out' = out @ new \<and> length new + count' = count
         \<and> (\<forall>(s, i) \<in> set new. isFinite s \<and> i < length owner \<and> s = owner ! i)
         \<and> (0 < count' \<longrightarrow> rs' = [])"
proof (induction owner isFinite rs cur count out rule: read_loop.induct)
  case (1 owner isFinite rs cur count out)
  show ?case
  proof (cases "count > 0 \<and> rs \<noteq> []")
    case False
    with "1.prems" show ?thesis
      by (auto simp: read_loop.simps [of owner isFinite rs cur count out])
  next
    case True
    define e where "e = (if length owner < snd (hd rs) then length owner else snd (hd rs))"
    define r where "r = read_inner owner isFinite e cur count out"
    have ele: "e \<le> length owner" by (simp add: e_def)
    have step: "read_loop owner isFinite rs cur count out =
        (if e \<le> fst r then
           read_loop owner isFinite (tl rs)
             (if tl rs \<noteq> [] then fst (hd (tl rs)) else fst r) (fst (snd r)) (snd (snd r))
         else read_loop owner isFinite rs (fst r) (fst (snd r)) (snd (snd r)))"
      unfolding e_def r_def using True
      by (subst read_loop.simps) (simp add: Let_def)
    have "read_inner owner isFinite e cur count out = (fst r, fst (snd r), snd (snd r))"
      by (simp add: r_def)
    from read_inner_written [OF this] obtain new1
      where n1: "snd (snd r) = out @ new1" "length new1 + fst (snd r) = count"
        "\<forall>(s, i) \<in> set new1. isFinite s \<and> i < e \<and> s = owner ! i" by blast
    have n1': "\<forall>(s, i) \<in> set new1. isFinite s \<and> i < length owner \<and> s = owner ! i"
      using n1(3) ele by fastforce
    have "\<exists>new2. out' = snd (snd r) @ new2 \<and> length new2 + count' = fst (snd r)
         \<and> (\<forall>(s, i) \<in> set new2. isFinite s \<and> i < length owner \<and> s = owner ! i)
         \<and> (0 < count' \<longrightarrow> rs' = [])"
    proof (cases "e \<le> fst r")
      case adv: True
      with step "1.prems"
      have "read_loop owner isFinite (tl rs)
              (if tl rs \<noteq> [] then fst (hd (tl rs)) else fst r) (fst (snd r)) (snd (snd r))
            = (rs', cur', count', out')"
        by simp
      from "1.IH"(1) [OF True e_def r_def adv this] show ?thesis .
    next
      case stay: False
      with step "1.prems"
      have "read_loop owner isFinite rs (fst r) (fst (snd r)) (snd (snd r))
            = (rs', cur', count', out')"
        by simp
      from "1.IH"(2) [OF True e_def r_def stay this] show ?thesis .
    qed
    then obtain new2
      where n2: "out' = snd (snd r) @ new2" "length new2 + count' = fst (snd r)"
        "\<forall>(s, i) \<in> set new2. isFinite s \<and> i < length owner \<and> s = owner ! i"
        "0 < count' \<longrightarrow> rs' = []" by blast
    have "out' = out @ (new1 @ new2)" using n1(1) n2(1) by simp
    moreover have "length (new1 @ new2) + count' = count" using n1(2) n2(2) by simp
    moreover have "\<forall>(s, i) \<in> set (new1 @ new2). isFinite s \<and> i < length owner \<and> s = owner ! i"
      using n1' n2(3) by auto
    ultimately show ?thesis using n2(4) by blast
  qed
qed

text \<open>
  Claim C6. For every stream state and every call \<^verbatim>\<open>read(splats, splatIds, count)\<close>: the
  returned \<^verbatim>\<open>actualCount\<close> is at most \<open>count\<close> and is the number of splats written; every
  splat written is finite and is the splat of the owner at the id written with it (the
  non-finite ones are passed over); and \<^verbatim>\<open>actualCount < count\<close> only if the stream is at the
  end of its ranges after the call.
\<close>

theorem read_count_finite_eof:
  assumes "read owner isFinite st count = (actualCount, out, st')"
  shows "actualCount \<le> count \<and> length out = actualCount
    \<and> (\<forall>(s, i) \<in> set out. isFinite s \<and> i < length owner \<and> s = owner ! i)
    \<and> (actualCount < count \<longrightarrow> fst st' = [])"
proof -
  obtain rs' cur' count' out' where
    l: "read_loop owner isFinite (fst st) (snd st) count [] = (rs', cur', count', out')"
    by (cases "read_loop owner isFinite (fst st) (snd st) count []") auto
  with assms have r: "actualCount = count - count'" "out = out'" "st' = (rs', cur')"
    by (simp_all add: read_def)
  from read_loop_written [OF l] obtain new
    where n: "out' = [] @ new" "length new + count' = count"
      "\<forall>(s, i) \<in> set new. isFinite s \<and> i < length owner \<and> s = owner ! i"
      "0 < count' \<longrightarrow> rs' = []" by blast
  from n(2) r(1) have "actualCount \<le> count" "length new = actualCount" by simp_all
  moreover from n(2,4) r(1) have "actualCount < count \<longrightarrow> rs' = []" by auto
  ultimately show ?thesis using n(1,3) r(2,3) by simp
qed

theorem read_count_finite_eof_witness:
  "read [1 :: int, - 1, 2, 3] (\<lambda>x. 0 \<le> x) ([(0, 2), (3, 9)], 0) 5
     = (2, [(1, 0), (3, 3)], ([], 4))
   \<and> (2 :: nat) \<le> 5 \<and> length [(1 :: int, 0 :: nat), (3, 3)] = 2
   \<and> (0 :: int) \<le> 1 \<and> (0 :: nat) < length [1 :: int, - 1, 2, 3]
   \<and> [1 :: int, - 1, 2, 3] ! 0 = 1
   \<and> (0 :: int) \<le> 3 \<and> (3 :: nat) < length [1 :: int, - 1, 2, 3]
   \<and> [1 :: int, - 1, 2, 3] ! 3 = 3
   \<and> fst (([] :: (nat \<times> nat) list), 4 :: nat) = []"
proof -
  have e: "read [1 :: int, - 1, 2, 3] (\<lambda>x. 0 \<le> x) ([(0, 2), (3, 9)], 0) 5
             = (2, [(1, 0), (3, 3)], ([], 4))"
    by (simp add: read_def read_loop.simps read_inner.simps)
  from read_count_finite_eof [OF e] e show ?thesis by simp
qed

section \<open>Properties of the splat accounting\<close>

lemma unat_of_nat_64: "n < 2 ^ 64 \<Longrightarrow> unat (of_nat n :: 64 word) = n"
  by (simp add: unsigned_of_nat take_bit_nat_eq_self)

lemma in_flight_bound:
  assumes "\<forall>it \<in> set xs. sum_list it \<le> (m :: nat)"
  shows "sum_list (map sum_list xs) \<le> m * length xs"
  using assms by (induction xs) auto

lemma sum_list_update_Cons:
  assumes "k < length xs" "xs ! k = (n :: nat) # rest"
  shows "sum_list (map sum_list (xs[k := rest])) + n = sum_list (map sum_list xs)"
  using assms
proof (induction xs arbitrary: k)
  case Nil
  then show ?case by simp
next
  case (Cons x xs)
  show ?case
  proof (cases k)
    case 0
    with Cons.prems show ?thesis by simp
  next
    case (Suc j)
    with Cons.prems have "j < length xs" "xs ! j = n # rest" by simp_all
    from Cons.IH [OF this] show ?thesis using Suc by simp
  qed
qed

lemma sum_list_remove_empty:
  assumes "k < length xs" "xs ! k = ([] :: nat list)"
  shows "sum_list (map sum_list (take k xs @ drop (Suc k) xs)) = sum_list (map sum_list xs)"
proof -
  have "xs = take k xs @ xs ! k # drop (Suc k) xs" using assms(1) by (rule id_take_nth_drop)
  then have "sum_list (map sum_list xs)
      = sum_list (map sum_list (take k xs @ [] # drop (Suc k) xs))" using assms(2) by simp
  then show ?thesis by simp
qed

lemma accounted_initial: "accounted cfg (initial_device cfg)"
  by (simp add: accounted_def initial_device_def in_flight_def)

lemma accounted_step:
  assumes a: "accounted cfg s" and st: "step cfg s s'"
  shows "accounted cfg s'"
  using st
proof cases
  case (Copy n)
  with a show ?thesis by (simp add: accounted_def in_flight_def)
next
  case Flush
  let ?b = "bufferedSplats s"
  from a have inv: "unallocated s + of_nat (in_flight s) = unallocated (initial_device cfg)"
    "itemPool s + length (inflight s) = items cfg"
    "\<forall>it \<in> set (inflight s). sum_list it \<le> maxItemSplats cfg"
    "?b = sum_list (bufferedItems s)" "?b \<le> maxItemSplats cfg"
    by (simp_all add: accounted_def)
  have f: "in_flight s' = in_flight s + ?b"
    unfolding Flush(1) in_flight_def get_def using inv(4) by simp
  have u: "unallocated s' = unallocated s - of_nat ?b"
    unfolding Flush(1) get_def by simp
  have "unallocated s' + of_nat (in_flight s') = unallocated s + of_nat (in_flight s)"
    unfolding f u by simp
  then have 1: "unallocated s' + of_nat (in_flight s') = unallocated (initial_device cfg)"
    using inv(1) by simp
  have 2: "itemPool s' + length (inflight s') = items cfg"
    unfolding Flush(1) get_def using inv(2) Flush(3) by simp
  have 3: "\<forall>it \<in> set (inflight s'). sum_list it \<le> maxItemSplats cfg"
    unfolding Flush(1) get_def using inv(3,4,5) by simp
  have 4: "bufferedSplats s' = sum_list (bufferedItems s')" "bufferedSplats s' \<le> maxItemSplats cfg"
    unfolding Flush(1) get_def by simp_all
  show ?thesis unfolding accounted_def using 1 2 3 4 by blast
next
  case (Complete k n rest)
  from a have inv: "unallocated s + of_nat (in_flight s) = unallocated (initial_device cfg)"
    "itemPool s + length (inflight s) = items cfg"
    "\<forall>it \<in> set (inflight s). sum_list it \<le> maxItemSplats cfg"
    "bufferedSplats s = sum_list (bufferedItems s)" "bufferedSplats s \<le> maxItemSplats cfg"
    by (simp_all add: accounted_def)
  have f: "in_flight s' + n = in_flight s"
    unfolding Complete(1) in_flight_def using sum_list_update_Cons [OF Complete(2,3)] by simp
  have u: "unallocated s' = unallocated s + of_nat n"
    unfolding Complete(1) by simp
  have "unallocated s' + of_nat (in_flight s') = unallocated s + of_nat (in_flight s' + n)"
    unfolding u by simp
  then have 1: "unallocated s' + of_nat (in_flight s') = unallocated (initial_device cfg)"
    unfolding f using inv(1) by simp
  have 2: "itemPool s' + length (inflight s') = items cfg"
    unfolding Complete(1) using inv(2) by simp
  have "inflight s ! k \<in> set (inflight s)" using Complete(2) by simp
  with inv(3) Complete(3) have r: "sum_list rest \<le> maxItemSplats cfg" by fastforce
  have "\<forall>it \<in> set ((inflight s)[k := rest]). sum_list it \<le> maxItemSplats cfg"
    using inv(3) r by (auto dest!: set_update_subset_insert [THEN subsetD])
  then have 3: "\<forall>it \<in> set (inflight s'). sum_list it \<le> maxItemSplats cfg"
    unfolding Complete(1) by simp
  have 4: "bufferedSplats s' = sum_list (bufferedItems s')" "bufferedSplats s' \<le> maxItemSplats cfg"
    unfolding Complete(1) using inv(4,5) by simp_all
  show ?thesis unfolding accounted_def using 1 2 3 4 by blast
next
  case (Free k)
  from a have inv: "unallocated s + of_nat (in_flight s) = unallocated (initial_device cfg)"
    "itemPool s + length (inflight s) = items cfg"
    "\<forall>it \<in> set (inflight s). sum_list it \<le> maxItemSplats cfg"
    "bufferedSplats s = sum_list (bufferedItems s)" "bufferedSplats s \<le> maxItemSplats cfg"
    by (simp_all add: accounted_def)
  have f: "in_flight s' = in_flight s"
    unfolding Free(1) in_flight_def using sum_list_remove_empty [OF Free(2,3)] by simp
  have u: "unallocated s' = unallocated s"
    unfolding Free(1) by simp
  have 1: "unallocated s' + of_nat (in_flight s') = unallocated (initial_device cfg)"
    unfolding f u by (rule inv(1))
  have 2: "itemPool s' + length (inflight s') = items cfg"
    unfolding Free(1) using inv(2) Free(2) by simp
  have "\<forall>it \<in> set (take k (inflight s) @ drop (Suc k) (inflight s)).
      sum_list it \<le> maxItemSplats cfg"
    using inv(3) by (auto dest: in_set_takeD in_set_dropD)
  then have 3: "\<forall>it \<in> set (inflight s'). sum_list it \<le> maxItemSplats cfg"
    unfolding Free(1) by simp
  have 4: "bufferedSplats s' = sum_list (bufferedItems s')" "bufferedSplats s' \<le> maxItemSplats cfg"
    unfolding Free(1) using inv(4,5) by simp_all
  show ?thesis unfolding accounted_def using 1 2 3 4 by blast
qed

lemma reachable_accounted:
  assumes "reachable cfg s"
  shows "accounted cfg s"
  using assms
proof induction
  case Init
  show ?case by (rule accounted_initial)
next
  case (Step s s')
  then show ?case using accounted_step by blast
qed

lemma accounted_in_flight_le:
  assumes "accounted cfg s"
  shows "in_flight s \<le> capacity cfg"
proof -
  from assms have inv: "itemPool s + length (inflight s) = items cfg"
    "\<forall>it \<in> set (inflight s). sum_list it \<le> maxItemSplats cfg"
    by (simp_all add: accounted_def)
  have "in_flight s \<le> maxItemSplats cfg * length (inflight s)"
    unfolding in_flight_def by (rule in_flight_bound [OF inv(2)])
  also have "\<dots> \<le> maxItemSplats cfg * items cfg"
    using inv(1) by (intro mult_le_mono2) simp
  finally show ?thesis by (simp add: capacity_def)
qed

lemma accounted_exact:
  assumes a: "accounted cfg s" and cap: "capacity cfg < 2 ^ 64"
  shows "unat (unallocated s) + in_flight s = capacity cfg"
proof -
  note le = accounted_in_flight_le [OF a]
  from a have "unallocated s + of_nat (in_flight s) = of_nat (capacity cfg)"
    by (simp add: accounted_def initial_device_def capacity_def)
  also have "of_nat (capacity cfg) = (of_nat (capacity cfg - in_flight s) :: 64 word) + of_nat (in_flight s)"
    using le by (simp flip: of_nat_add)
  finally have "unallocated s = of_nat (capacity cfg - in_flight s)" by simp
  then have "unat (unallocated s) = capacity cfg - in_flight s"
    using cap by (simp add: unat_of_nat_64)
  then show ?thesis using le by simp
qed

text \<open>
  Claim C8. In every reachable state of a device worker group, where \<^verbatim>\<open>get\<close> subtracts the
  splats of the item it hands out from \<^verbatim>\<open>unallocated_\<close> and the device worker adds back the
  splats of each sub-item it completes: \<^verbatim>\<open>unallocated_\<close> plus the splats of the sub-items in
  flight is the initial value \<open>maxItemSplats * (numWorkers + spare)\<close>, in \<^verbatim>\<open>size_t\<close> arithmetic
  always and in the natural numbers when that product fits a \<^verbatim>\<open>size_t\<close>; the splats in
  flight never exceed \<open>(numWorkers + spare) * maxItemSplats\<close>; and once nothing is in flight,
  \<^verbatim>\<open>unallocated_\<close> is back at its initial value.
\<close>

theorem unallocated_accounting:
  assumes "reachable cfg s"
  shows "unallocated s + of_nat (in_flight s)
           = of_nat (maxItemSplats cfg) * of_nat (numWorkers cfg + spare cfg)
       \<and> (maxItemSplats cfg * (numWorkers cfg + spare cfg) < 2 ^ 64 \<longrightarrow>
            unat (unallocated s) + in_flight s
              = (numWorkers cfg + spare cfg) * maxItemSplats cfg)
       \<and> in_flight s \<le> (numWorkers cfg + spare cfg) * maxItemSplats cfg
       \<and> (in_flight s = 0 \<longrightarrow> unallocated s = unallocated (initial_device cfg))"
proof -
  note a = reachable_accounted [OF assms]
  have 1: "unallocated s + of_nat (in_flight s)
      = of_nat (maxItemSplats cfg) * of_nat (numWorkers cfg + spare cfg)"
    using a by (simp add: accounted_def initial_device_def items_def)
  have 2: "maxItemSplats cfg * (numWorkers cfg + spare cfg) < 2 ^ 64 \<longrightarrow>
      unat (unallocated s) + in_flight s = (numWorkers cfg + spare cfg) * maxItemSplats cfg"
    using accounted_exact [OF a] by (simp add: capacity_def items_def mult.commute)
  have 3: "in_flight s \<le> (numWorkers cfg + spare cfg) * maxItemSplats cfg"
    using accounted_in_flight_le [OF a] by (simp add: capacity_def items_def mult.commute)
  have 4: "in_flight s = 0 \<longrightarrow> unallocated s = unallocated (initial_device cfg)"
    using a by (auto simp add: accounted_def)
  show ?thesis using 1 2 3 4 by blast
qed

lemma dev_s4_reachable: "reachable dev_cfg dev_s4"
proof -
  have 0: "reachable dev_cfg (initial_device dev_cfg)" by (rule reachable.Init)
  have "dev_s1 = (initial_device dev_cfg)
      \<lparr>bufferedItems := bufferedItems (initial_device dev_cfg) @ [4],
       bufferedSplats := bufferedSplats (initial_device dev_cfg) + 4\<rparr>"
    by (simp add: dev_cfg_def dev_s1_def initial_device_def items_def)
  moreover have "step dev_cfg (initial_device dev_cfg) ((initial_device dev_cfg)
      \<lparr>bufferedItems := bufferedItems (initial_device dev_cfg) @ [4],
       bufferedSplats := bufferedSplats (initial_device dev_cfg) + 4\<rparr>)"
    by (rule step.Copy) (simp_all add: dev_cfg_def initial_device_def)
  ultimately have "step dev_cfg (initial_device dev_cfg) dev_s1" by simp
  with 0 have 1: "reachable dev_cfg dev_s1" by (rule reachable.Step)
  have "dev_s2 = dev_s1\<lparr>bufferedItems := bufferedItems dev_s1 @ [3],
      bufferedSplats := bufferedSplats dev_s1 + 3\<rparr>"
    by (simp add: dev_s1_def dev_s2_def)
  moreover have "step dev_cfg dev_s1 (dev_s1\<lparr>bufferedItems := bufferedItems dev_s1 @ [3],
      bufferedSplats := bufferedSplats dev_s1 + 3\<rparr>)"
    by (rule step.Copy) (simp_all add: dev_cfg_def dev_s1_def)
  ultimately have "step dev_cfg dev_s1 dev_s2" by simp
  with 1 have 2: "reachable dev_cfg dev_s2" by (rule reachable.Step)
  have "dev_s3 = (get dev_s2 (bufferedSplats dev_s2))
      \<lparr>inflight := inflight dev_s2 @ [bufferedItems dev_s2],
       bufferedItems := [], bufferedSplats := 0\<rparr>"
    by (simp add: dev_s2_def dev_s3_def get_def)
  moreover have "step dev_cfg dev_s2 ((get dev_s2 (bufferedSplats dev_s2))
      \<lparr>inflight := inflight dev_s2 @ [bufferedItems dev_s2],
       bufferedItems := [], bufferedSplats := 0\<rparr>)"
    by (rule step.Flush) (simp_all add: dev_s2_def)
  ultimately have "step dev_cfg dev_s2 dev_s3" by simp
  with 2 have 3: "reachable dev_cfg dev_s3" by (rule reachable.Step)
  have "dev_s4 = dev_s3\<lparr>unallocated := unallocated dev_s3 + of_nat 4,
      inflight := (inflight dev_s3)[0 := [3]]\<rparr>"
    by (simp add: dev_s3_def dev_s4_def)
  moreover have "step dev_cfg dev_s3 (dev_s3\<lparr>unallocated := unallocated dev_s3 + of_nat 4,
      inflight := (inflight dev_s3)[0 := [3]]\<rparr>)"
    by (rule step.Complete) (simp_all add: dev_s3_def)
  ultimately have "step dev_cfg dev_s3 dev_s4" by simp
  with 3 show ?thesis by (rule reachable.Step)
qed

theorem unallocated_accounting_witness:
  "reachable dev_cfg dev_s4
   \<and> unat (unallocated dev_s4) + in_flight dev_s4 = 20
   \<and> in_flight dev_s4 = 3
   \<and> unallocated dev_s4 + of_nat (in_flight dev_s4) = unallocated (initial_device dev_cfg)"
  using unallocated_accounting [OF dev_s4_reachable] dev_s4_reachable
  by (simp add: dev_cfg_def dev_s4_def in_flight_def initial_device_def items_def)

section \<open>Properties of the octree of one splat\<close>

lemma unat_push_bit_1: "n < 32 \<Longrightarrow> unat (push_bit n 1 :: code_type) = 2 ^ n"
  using unat_pow2 [of n] by (simp add: push_bit_eq_mult)

lemma maxLevel_loop_bounded:
  assumes "unat sz \<le> 1024"
  shows "l \<le> 10 \<Longrightarrow> \<exists>L. maxLevel_loop l sz = Inr L \<and> l \<le> L \<and> L \<le> 10 \<and> unat sz \<le> 2 ^ L"
proof (induction "10 - l" arbitrary: l)
  case 0
  then have l: "l = 10" by simp
  have "\<not> push_bit 10 1 < sz" using assms by (simp add: word_less_nat_alt)
  then show ?case unfolding l using assms by (simp add: maxLevel_loop.simps [of 10])
next
  case (Suc n)
  show ?case
  proof (cases "push_bit l 1 < sz")
    case True
    from Suc have "Suc l \<le> 10" "n = 10 - Suc l" by simp_all
    from Suc(1) [OF this(2,1)] obtain L where "maxLevel_loop (Suc l) sz = Inr L" "Suc l \<le> L"
      "L \<le> 10" "unat sz \<le> 2 ^ L"
      by blast
    with True Suc(3) show ?thesis by (simp add: maxLevel_loop.simps [of l])
  next
    case False
    have "l < 32" using Suc(3) by simp
    then have "unat (push_bit l 1 :: code_type) = 2 ^ l" by (rule unat_push_bit_1)
    with False have "unat sz \<le> 2 ^ l" by (simp add: word_less_nat_alt del: push_bit_of_1)
    with False Suc(3) show ?thesis by (simp add: maxLevel_loop.simps [of l])
  qed
qed

lemma maxLevel_loop_result:
  assumes "2 \<le> unat sz" "unat sz \<le> 1024"
  shows "\<exists>L. maxLevel_loop 0 sz = Inr L \<and> 1 \<le> L \<and> L \<le> 10 \<and> unat sz \<le> 2 ^ L"
proof -
  have "push_bit 0 1 < sz" using assms(1) by (simp add: word_less_nat_alt)
  then have "maxLevel_loop 0 sz = maxLevel_loop 1 sz" by (simp add: maxLevel_loop.simps [of 0])
  then show ?thesis using maxLevel_loop_bounded [OF assms(2), of 1] by simp
qed

lemma makeCode_bits:
  "makeCode 0 0 0 = Inr 0" "makeCode 1 0 0 = Inr 1" "makeCode 0 1 0 = Inr 2" "makeCode 1 1 0 = Inr 3"
  "makeCode 0 0 1 = Inr 4" "makeCode 1 0 1 = Inr 5" "makeCode 0 1 1 = Inr 6" "makeCode 1 1 1 = Inr 7"
  by (simp_all add: makeCode_def makeCode_loop.simps)

lemma unit_box_shift:
  assumes "\<forall>i<3. 2 \<le> unat (nth3 dims i) \<and> unat (nth3 dims i) \<le> 1024"
  shows "box_shift dims (0, 0, 0) (1, 1, 1) = Inr 0"
proof -
  have s: "1 < sint (nth3 dims i)" if "i < 3" for i
  proof -
    from assms that have b: "2 \<le> unat (nth3 dims i)" "unat (nth3 dims i) \<le> 1024" by simp_all
    from b have "2 \<le> nth3 dims i" "nth3 dims i \<le> 1024" by (simp_all add: word_le_nat_alt)
    then have u: "2 \<le> uint (nth3 dims i)" "uint (nth3 dims i) \<le> 1024"
      by (simp_all add: word_le_def)
    then have "sint (nth3 dims i) = uint (nth3 dims i)"
      unfolding sint_uint by (simp add: signed_take_bit_int_eq_self)
    then show ?thesis using u(1) by simp
  qed
  have l: "shift_loop 0 1 0 = Inr 0" by (simp add: shift_loop.simps)
  show ?thesis
    using s [of 0] s [of 1] s [of 2]
    by (simp add: box_shift_def axis_shift_def bind_e_def nth3_def l)
qed

lemma unit_box_cells:
  "box_cells (0, 0, 0) (1, 1, 1)
     = [(0,0,0), (1,0,0), (0,1,0), (1,1,0), (0,0,1), (1,0,1), (0,1,1), (1,1,1)]"
  by (simp add: box_cells_def axis_range_def nth3_def upt_rec)

lemma unit_box_entries:
  assumes "\<forall>i<3. 2 \<le> unat (nth3 dims i) \<and> unat (nth3 dims i) \<le> 1024"
  shows "add_splats dims L [unit_box] 0 []
     = Inr [unit_entry L 0, unit_entry L 1, unit_entry L 2, unit_entry L 3,
            unit_entry L 4, unit_entry L 5, unit_entry L 6, unit_entry L 7]"
  by (simp add: add_splat_def unit_box_def unit_box_shift [OF assms] bind_e_def tabulate3_def
      nth3_def unit_box_cells [unfolded nth3_def] makeCode_bits unit_entry_def)

lemma unit_box_sorted:
  "stable_sort [unit_entry L 0, unit_entry L 1, unit_entry L 2, unit_entry L 3,
            unit_entry L 4, unit_entry L 5, unit_entry L 6, unit_entry L 7] = unit_sorted L"
  by (simp add: stable_sort_def entry_less_def unit_entry_def unit_sorted_def)

lemma unit_numCommands: "numCommands_of (unit_sorted L) = 16"
  by (simp add: numCommands_of_def unit_sorted_def unit_entry_def)

lemma replicate_update_same: "(replicate n x)[i := x] = replicate n x"
  by (induction n arbitrary: i) (simp_all split: nat.split)

lemma run_end_miss:
  assumes "p < length es" "\<not> (level (es ! p) = lv \<and> code (es ! p) = c)"
  shows "run_end es past lv c p = Inr p"
  using assms by (auto simp add: run_end.simps [of es past lv c p])

lemma unat_drop_bit_le: "unat (drop_bit n (c :: code_type)) \<le> unat c"
  by (simp add: drop_bit_eq_div unat_div)

lemma cell_miss:
  assumes "p < length es" "\<not> (level (es ! p) = lv \<and> code (es ! p) = c)" "unat c < N"
  shows "build_cell es past lv c (replicate N (- 1), cmds, cur, p)
             = Inr (replicate N (- 1), cmds, cur, p)"
proof -
  have "unat (drop_bit 3 c) < N"
    using unat_drop_bit_le [of 3 c] assms(3) by (rule le_less_trans)
  then have d: "replicate N (- 1 :: command_type) ! unat (drop_bit 3 c) = - 1"
    by (rule nth_replicate)
  note r = run_end_miss [OF assms(1,2)]
  show ?thesis
    unfolding build_cell_def
    by (simp only: prod.case r bind_e_def sum.case length_replicate assms(3) not_True_eq_False
        if_False Let_def d less_irrefl replicate_update_same)
qed

lemma run_end_hit:
  assumes "p < length es" "level (es ! p) = lv \<and> code (es ! p) = c"
    "Suc p < length es \<longrightarrow> \<not> (level (es ! Suc p) = lv \<and> code (es ! Suc p) = c)"
    "Suc p = length es \<longrightarrow> \<not> (level past = lv \<and> code past = c)"
  shows "run_end es past lv c p = Inr (Suc p)"
  apply (subst run_end.simps)
  apply (simp only: assms(1,2) if_True simp_thms)
  apply (subst run_end.simps)
  using assms(1,3,4) apply (cases "Suc p < length es")
   apply (auto simp add: not_less)
  done

lemma take_one_drop: "p < length es \<Longrightarrow> take (Suc p - p) (drop p es) = [es ! p]"
  by (simp add: take_Suc_conv_app_nth)

lemma cell_hit:
  assumes "p < length es" "level (es ! p) = lv \<and> code (es ! p) = c"
    "Suc p < length es \<longrightarrow> \<not> (level (es ! Suc p) = lv \<and> code (es ! Suc p) = c)"
    "Suc p = length es \<longrightarrow> \<not> (level past = lv \<and> code past = c)"
    "unat c < length sv" "sv ! unat (drop_bit 3 c) = - 1"
    "unat cur < length cmds" "unat (cur + 1) < length cmds"
  shows "build_cell es past lv c (sv, cmds, cur, p)
     = Inr (sv[unat c := cur], cmds[unat cur := splatId (es ! p), unat (cur + 1) := - 1],
            cur + 2, Suc p)"
proof -
  note r = run_end_hit [OF assms(1-4)]
  have w: "write_commands cmds cur [splatId (es ! p), - 1]
      = Inr (cmds[unat cur := splatId (es ! p), unat (cur + 1) := - 1], cur + 2)"
    using assms(7,8) by simp
  show ?thesis
    unfolding build_cell_def
    by (simp only: prod.case r bind_e_def sum.case assms(5,6) not_True_eq_False if_False if_True
        Let_def lessI take_one_drop [OF assms(1)] list.map append.simps simp_thms w)
qed

lemma rep16: "replicate 16 (0 :: command_type) = [0, 0, 0, 0, 0, 0, 0, 0, 0, 0, 0, 0, 0, 0, 0, 0]"
  by (simp add: numeral_eq_Suc)

lemma cell_unit7:
  assumes "8 \<le> N"
  shows "build_cell (unit_sorted L) past L 7 (replicate N (- 1), [0, 0, 0, 0, 0, 0, 0, 0, 0, 0, 0, 0, 0, 0, 0, 0], 0, 0)
     = Inr ((replicate N (- 1))[7 := 0], [0, - 1, 0, 0, 0, 0, 0, 0, 0, 0, 0, 0, 0, 0, 0, 0], 2, 1)"
proof -
  have "build_cell (unit_sorted L) past L 7 (replicate N (- 1), [0, 0, 0, 0, 0, 0, 0, 0, 0, 0, 0, 0, 0, 0, 0, 0], 0, 0)
     = Inr ((replicate N (- 1))[unat (7 :: code_type) := 0],
         ([0, 0, 0, 0, 0, 0, 0, 0, 0, 0, 0, 0, 0, 0, 0, 0])[unat (0 :: command_type) := splatId (unit_sorted L ! 0),
            unat (0 + 1 :: command_type) := - 1], 0 + 2, Suc 0)"
    apply (rule cell_hit)
    using assms by (simp_all add: unit_sorted_def unit_entry_def)
  then show ?thesis by (simp add: unit_sorted_def unit_entry_def)
qed

lemma cell_unit6:
  assumes "8 \<le> N"
  shows "build_cell (unit_sorted L) past L 6 ((replicate N (- 1))[7 := 0], [0, - 1, 0, 0, 0, 0, 0, 0, 0, 0, 0, 0, 0, 0, 0, 0], 2, 1)
     = Inr ((replicate N (- 1))[7 := 0, 6 := 2], [0, - 1, 0, - 1, 0, 0, 0, 0, 0, 0, 0, 0, 0, 0, 0, 0], 4, 2)"
proof -
  have "build_cell (unit_sorted L) past L 6 ((replicate N (- 1))[7 := 0], [0, - 1, 0, 0, 0, 0, 0, 0, 0, 0, 0, 0, 0, 0, 0, 0], 2, 1)
     = Inr (((replicate N (- 1))[7 := 0])[unat (6 :: code_type) := 2],
         ([0, - 1, 0, 0, 0, 0, 0, 0, 0, 0, 0, 0, 0, 0, 0, 0])[unat (2 :: command_type) := splatId (unit_sorted L ! 1),
            unat (2 + 1 :: command_type) := - 1], 2 + 2, Suc 1)"
    apply (rule cell_hit)
    using assms by (simp_all add: unit_sorted_def unit_entry_def)
  then show ?thesis by (simp add: unit_sorted_def unit_entry_def)
qed

lemma cell_unit5:
  assumes "8 \<le> N"
  shows "build_cell (unit_sorted L) past L 5 ((replicate N (- 1))[7 := 0, 6 := 2], [0, - 1, 0, - 1, 0, 0, 0, 0, 0, 0, 0, 0, 0, 0, 0, 0], 4, 2)
     = Inr ((replicate N (- 1))[7 := 0, 6 := 2, 5 := 4], [0, - 1, 0, - 1, 0, - 1, 0, 0, 0, 0, 0, 0, 0, 0, 0, 0], 6, 3)"
proof -
  have "build_cell (unit_sorted L) past L 5 ((replicate N (- 1))[7 := 0, 6 := 2], [0, - 1, 0, - 1, 0, 0, 0, 0, 0, 0, 0, 0, 0, 0, 0, 0], 4, 2)
     = Inr (((replicate N (- 1))[7 := 0, 6 := 2])[unat (5 :: code_type) := 4],
         ([0, - 1, 0, - 1, 0, 0, 0, 0, 0, 0, 0, 0, 0, 0, 0, 0])[unat (4 :: command_type) := splatId (unit_sorted L ! 2),
            unat (4 + 1 :: command_type) := - 1], 4 + 2, Suc 2)"
    apply (rule cell_hit)
    using assms by (simp_all add: unit_sorted_def unit_entry_def)
  then show ?thesis by (simp add: unit_sorted_def unit_entry_def)
qed

lemma cell_unit4:
  assumes "8 \<le> N"
  shows "build_cell (unit_sorted L) past L 4 ((replicate N (- 1))[7 := 0, 6 := 2, 5 := 4], [0, - 1, 0, - 1, 0, - 1, 0, 0, 0, 0, 0, 0, 0, 0, 0, 0], 6, 3)
     = Inr ((replicate N (- 1))[7 := 0, 6 := 2, 5 := 4, 4 := 6], [0, - 1, 0, - 1, 0, - 1, 0, - 1, 0, 0, 0, 0, 0, 0, 0, 0], 8, 4)"
proof -
  have "build_cell (unit_sorted L) past L 4 ((replicate N (- 1))[7 := 0, 6 := 2, 5 := 4], [0, - 1, 0, - 1, 0, - 1, 0, 0, 0, 0, 0, 0, 0, 0, 0, 0], 6, 3)
     = Inr (((replicate N (- 1))[7 := 0, 6 := 2, 5 := 4])[unat (4 :: code_type) := 6],
         ([0, - 1, 0, - 1, 0, - 1, 0, 0, 0, 0, 0, 0, 0, 0, 0, 0])[unat (6 :: command_type) := splatId (unit_sorted L ! 3),
            unat (6 + 1 :: command_type) := - 1], 6 + 2, Suc 3)"
    apply (rule cell_hit)
    using assms by (simp_all add: unit_sorted_def unit_entry_def)
  then show ?thesis by (simp add: unit_sorted_def unit_entry_def)
qed

lemma cell_unit3:
  assumes "8 \<le> N"
  shows "build_cell (unit_sorted L) past L 3 ((replicate N (- 1))[7 := 0, 6 := 2, 5 := 4, 4 := 6], [0, - 1, 0, - 1, 0, - 1, 0, - 1, 0, 0, 0, 0, 0, 0, 0, 0], 8, 4)
     = Inr ((replicate N (- 1))[7 := 0, 6 := 2, 5 := 4, 4 := 6, 3 := 8], [0, - 1, 0, - 1, 0, - 1, 0, - 1, 0, - 1, 0, 0, 0, 0, 0, 0], 10, 5)"
proof -
  have "build_cell (unit_sorted L) past L 3 ((replicate N (- 1))[7 := 0, 6 := 2, 5 := 4, 4 := 6], [0, - 1, 0, - 1, 0, - 1, 0, - 1, 0, 0, 0, 0, 0, 0, 0, 0], 8, 4)
     = Inr (((replicate N (- 1))[7 := 0, 6 := 2, 5 := 4, 4 := 6])[unat (3 :: code_type) := 8],
         ([0, - 1, 0, - 1, 0, - 1, 0, - 1, 0, 0, 0, 0, 0, 0, 0, 0])[unat (8 :: command_type) := splatId (unit_sorted L ! 4),
            unat (8 + 1 :: command_type) := - 1], 8 + 2, Suc 4)"
    apply (rule cell_hit)
    using assms by (simp_all add: unit_sorted_def unit_entry_def)
  then show ?thesis by (simp add: unit_sorted_def unit_entry_def)
qed

lemma cell_unit2:
  assumes "8 \<le> N"
  shows "build_cell (unit_sorted L) past L 2 ((replicate N (- 1))[7 := 0, 6 := 2, 5 := 4, 4 := 6, 3 := 8], [0, - 1, 0, - 1, 0, - 1, 0, - 1, 0, - 1, 0, 0, 0, 0, 0, 0], 10, 5)
     = Inr ((replicate N (- 1))[7 := 0, 6 := 2, 5 := 4, 4 := 6, 3 := 8, 2 := 10], [0, - 1, 0, - 1, 0, - 1, 0, - 1, 0, - 1, 0, - 1, 0, 0, 0, 0], 12, 6)"
proof -
  have "build_cell (unit_sorted L) past L 2 ((replicate N (- 1))[7 := 0, 6 := 2, 5 := 4, 4 := 6, 3 := 8], [0, - 1, 0, - 1, 0, - 1, 0, - 1, 0, - 1, 0, 0, 0, 0, 0, 0], 10, 5)
     = Inr (((replicate N (- 1))[7 := 0, 6 := 2, 5 := 4, 4 := 6, 3 := 8])[unat (2 :: code_type) := 10],
         ([0, - 1, 0, - 1, 0, - 1, 0, - 1, 0, - 1, 0, 0, 0, 0, 0, 0])[unat (10 :: command_type) := splatId (unit_sorted L ! 5),
            unat (10 + 1 :: command_type) := - 1], 10 + 2, Suc 5)"
    apply (rule cell_hit)
    using assms by (simp_all add: unit_sorted_def unit_entry_def)
  then show ?thesis by (simp add: unit_sorted_def unit_entry_def)
qed

lemma cell_unit1:
  assumes "8 \<le> N"
  shows "build_cell (unit_sorted L) past L 1 ((replicate N (- 1))[7 := 0, 6 := 2, 5 := 4, 4 := 6, 3 := 8, 2 := 10], [0, - 1, 0, - 1, 0, - 1, 0, - 1, 0, - 1, 0, - 1, 0, 0, 0, 0], 12, 6)
     = Inr ((replicate N (- 1))[7 := 0, 6 := 2, 5 := 4, 4 := 6, 3 := 8, 2 := 10, 1 := 12], [0, - 1, 0, - 1, 0, - 1, 0, - 1, 0, - 1, 0, - 1, 0, - 1, 0, 0], 14, 7)"
proof -
  have "build_cell (unit_sorted L) past L 1 ((replicate N (- 1))[7 := 0, 6 := 2, 5 := 4, 4 := 6, 3 := 8, 2 := 10], [0, - 1, 0, - 1, 0, - 1, 0, - 1, 0, - 1, 0, - 1, 0, 0, 0, 0], 12, 6)
     = Inr (((replicate N (- 1))[7 := 0, 6 := 2, 5 := 4, 4 := 6, 3 := 8, 2 := 10])[unat (1 :: code_type) := 12],
         ([0, - 1, 0, - 1, 0, - 1, 0, - 1, 0, - 1, 0, - 1, 0, 0, 0, 0])[unat (12 :: command_type) := splatId (unit_sorted L ! 6),
            unat (12 + 1 :: command_type) := - 1], 12 + 2, Suc 6)"
    apply (rule cell_hit)
    using assms by (simp_all add: unit_sorted_def unit_entry_def)
  then show ?thesis by (simp add: unit_sorted_def unit_entry_def)
qed

lemma cell_unit0:
  assumes "8 \<le> N" "\<not> (level past = L \<and> code past = 0)"
  shows "build_cell (unit_sorted L) past L 0 ((replicate N (- 1))[7 := 0, 6 := 2, 5 := 4, 4 := 6, 3 := 8, 2 := 10, 1 := 12], [0, - 1, 0, - 1, 0, - 1, 0, - 1, 0, - 1, 0, - 1, 0, - 1, 0, 0], 14, 7)
     = Inr ((replicate N (- 1))[7 := 0, 6 := 2, 5 := 4, 4 := 6, 3 := 8, 2 := 10, 1 := 12, 0 := 14], [0, - 1, 0, - 1, 0, - 1, 0, - 1, 0, - 1, 0, - 1, 0, - 1, 0, - 1], 16, 8)"
proof -
  have "build_cell (unit_sorted L) past L 0 ((replicate N (- 1))[7 := 0, 6 := 2, 5 := 4, 4 := 6, 3 := 8, 2 := 10, 1 := 12], [0, - 1, 0, - 1, 0, - 1, 0, - 1, 0, - 1, 0, - 1, 0, - 1, 0, 0], 14, 7)
     = Inr (((replicate N (- 1))[7 := 0, 6 := 2, 5 := 4, 4 := 6, 3 := 8, 2 := 10, 1 := 12])[unat (0 :: code_type) := 14],
         ([0, - 1, 0, - 1, 0, - 1, 0, - 1, 0, - 1, 0, - 1, 0, - 1, 0, 0])[unat (14 :: command_type) := splatId (unit_sorted L ! 7),
            unat (14 + 1 :: command_type) := - 1], 14 + 2, Suc 7)"
    apply (rule cell_hit)
    using assms by (simp_all add: unit_sorted_def unit_entry_def)
  then show ?thesis by (simp add: unit_sorted_def unit_entry_def)
qed

lemma code_loop_unit:
  assumes "8 \<le> N" "\<not> (level past = L \<and> code past = 0)"
  shows "code_loop (unit_sorted L) past L 7 (replicate N (- 1), [0, 0, 0, 0, 0, 0, 0, 0, 0, 0, 0, 0, 0, 0, 0, 0], 0, 0)
     = Inr ((replicate N (- 1))[7 := 0, 6 := 2, 5 := 4, 4 := 6, 3 := 8, 2 := 10, 1 := 12, 0 := 14], [0, - 1, 0, - 1, 0, - 1, 0, - 1, 0, - 1, 0, - 1, 0, - 1, 0, - 1], 16, 8)"
proof -
  have w: "(0 :: code_type) + 1 > 0" "(0 :: code_type) - 1 = - 1" "(1 :: code_type) + 1 > 0" "(1 :: code_type) - 1 = 0" "(2 :: code_type) + 1 > 0" "(2 :: code_type) - 1 = 1" "(3 :: code_type) + 1 > 0" "(3 :: code_type) - 1 = 2" "(4 :: code_type) + 1 > 0" "(4 :: code_type) - 1 = 3" "(5 :: code_type) + 1 > 0" "(5 :: code_type) - 1 = 4" "(6 :: code_type) + 1 > 0" "(6 :: code_type) - 1 = 5" "(7 :: code_type) + 1 > 0" "(7 :: code_type) - 1 = 6"
    by simp_all
  have e: "\<not> (- 1 :: code_type) + 1 > 0" by simp
  have s8: "code_loop (unit_sorted L) past L (- 1) ((replicate N (- 1))[7 := 0, 6 := 2, 5 := 4, 4 := 6, 3 := 8, 2 := 10, 1 := 12, 0 := 14], [0, - 1, 0, - 1, 0, - 1, 0, - 1, 0, - 1, 0, - 1, 0, - 1, 0, - 1], 16, 8)
     = Inr ((replicate N (- 1))[7 := 0, 6 := 2, 5 := 4, 4 := 6, 3 := 8, 2 := 10, 1 := 12, 0 := 14], [0, - 1, 0, - 1, 0, - 1, 0, - 1, 0, - 1, 0, - 1, 0, - 1, 0, - 1], 16, 8)"
    by (subst code_loop.simps) (simp only: e if_False)
  have s7: "code_loop (unit_sorted L) past L 0 ((replicate N (- 1))[7 := 0, 6 := 2, 5 := 4, 4 := 6, 3 := 8, 2 := 10, 1 := 12], [0, - 1, 0, - 1, 0, - 1, 0, - 1, 0, - 1, 0, - 1, 0, - 1, 0, 0], 14, 7)
     = Inr ((replicate N (- 1))[7 := 0, 6 := 2, 5 := 4, 4 := 6, 3 := 8, 2 := 10, 1 := 12, 0 := 14], [0, - 1, 0, - 1, 0, - 1, 0, - 1, 0, - 1, 0, - 1, 0, - 1, 0, - 1], 16, 8)"
    by (subst code_loop.simps, subst cell_unit0 [OF assms]) (simp only: w if_True sum.case s8)
  have s6: "code_loop (unit_sorted L) past L 1 ((replicate N (- 1))[7 := 0, 6 := 2, 5 := 4, 4 := 6, 3 := 8, 2 := 10], [0, - 1, 0, - 1, 0, - 1, 0, - 1, 0, - 1, 0, - 1, 0, 0, 0, 0], 12, 6)
     = Inr ((replicate N (- 1))[7 := 0, 6 := 2, 5 := 4, 4 := 6, 3 := 8, 2 := 10, 1 := 12, 0 := 14], [0, - 1, 0, - 1, 0, - 1, 0, - 1, 0, - 1, 0, - 1, 0, - 1, 0, - 1], 16, 8)"
    by (subst code_loop.simps, subst cell_unit1 [OF assms(1)]) (simp only: w if_True sum.case s7)
  have s5: "code_loop (unit_sorted L) past L 2 ((replicate N (- 1))[7 := 0, 6 := 2, 5 := 4, 4 := 6, 3 := 8], [0, - 1, 0, - 1, 0, - 1, 0, - 1, 0, - 1, 0, 0, 0, 0, 0, 0], 10, 5)
     = Inr ((replicate N (- 1))[7 := 0, 6 := 2, 5 := 4, 4 := 6, 3 := 8, 2 := 10, 1 := 12, 0 := 14], [0, - 1, 0, - 1, 0, - 1, 0, - 1, 0, - 1, 0, - 1, 0, - 1, 0, - 1], 16, 8)"
    by (subst code_loop.simps, subst cell_unit2 [OF assms(1)]) (simp only: w if_True sum.case s6)
  have s4: "code_loop (unit_sorted L) past L 3 ((replicate N (- 1))[7 := 0, 6 := 2, 5 := 4, 4 := 6], [0, - 1, 0, - 1, 0, - 1, 0, - 1, 0, 0, 0, 0, 0, 0, 0, 0], 8, 4)
     = Inr ((replicate N (- 1))[7 := 0, 6 := 2, 5 := 4, 4 := 6, 3 := 8, 2 := 10, 1 := 12, 0 := 14], [0, - 1, 0, - 1, 0, - 1, 0, - 1, 0, - 1, 0, - 1, 0, - 1, 0, - 1], 16, 8)"
    by (subst code_loop.simps, subst cell_unit3 [OF assms(1)]) (simp only: w if_True sum.case s5)
  have s3: "code_loop (unit_sorted L) past L 4 ((replicate N (- 1))[7 := 0, 6 := 2, 5 := 4], [0, - 1, 0, - 1, 0, - 1, 0, 0, 0, 0, 0, 0, 0, 0, 0, 0], 6, 3)
     = Inr ((replicate N (- 1))[7 := 0, 6 := 2, 5 := 4, 4 := 6, 3 := 8, 2 := 10, 1 := 12, 0 := 14], [0, - 1, 0, - 1, 0, - 1, 0, - 1, 0, - 1, 0, - 1, 0, - 1, 0, - 1], 16, 8)"
    by (subst code_loop.simps, subst cell_unit4 [OF assms(1)]) (simp only: w if_True sum.case s4)
  have s2: "code_loop (unit_sorted L) past L 5 ((replicate N (- 1))[7 := 0, 6 := 2], [0, - 1, 0, - 1, 0, 0, 0, 0, 0, 0, 0, 0, 0, 0, 0, 0], 4, 2)
     = Inr ((replicate N (- 1))[7 := 0, 6 := 2, 5 := 4, 4 := 6, 3 := 8, 2 := 10, 1 := 12, 0 := 14], [0, - 1, 0, - 1, 0, - 1, 0, - 1, 0, - 1, 0, - 1, 0, - 1, 0, - 1], 16, 8)"
    by (subst code_loop.simps, subst cell_unit5 [OF assms(1)]) (simp only: w if_True sum.case s3)
  have s1: "code_loop (unit_sorted L) past L 6 ((replicate N (- 1))[7 := 0], [0, - 1, 0, 0, 0, 0, 0, 0, 0, 0, 0, 0, 0, 0, 0, 0], 2, 1)
     = Inr ((replicate N (- 1))[7 := 0, 6 := 2, 5 := 4, 4 := 6, 3 := 8, 2 := 10, 1 := 12, 0 := 14], [0, - 1, 0, - 1, 0, - 1, 0, - 1, 0, - 1, 0, - 1, 0, - 1, 0, - 1], 16, 8)"
    by (subst code_loop.simps, subst cell_unit6 [OF assms(1)]) (simp only: w if_True sum.case s2)
  have s0: "code_loop (unit_sorted L) past L 7 (replicate N (- 1), [0, 0, 0, 0, 0, 0, 0, 0, 0, 0, 0, 0, 0, 0, 0, 0], 0, 0)
     = Inr ((replicate N (- 1))[7 := 0, 6 := 2, 5 := 4, 4 := 6, 3 := 8, 2 := 10, 1 := 12, 0 := 14], [0, - 1, 0, - 1, 0, - 1, 0, - 1, 0, - 1, 0, - 1, 0, - 1, 0, - 1], 16, 8)"
    by (subst code_loop.simps, subst cell_unit7 [OF assms(1)]) (simp only: w if_True sum.case s1)
  show ?thesis by (rule s0)
qed

lemma code_loop_skip:
  assumes "p < length es"
    and "\<forall>c'. k \<le> unat c' \<longrightarrow> \<not> (level (es ! p) = lv \<and> code (es ! p) = c')"
    and "N \<le> 2 ^ 30"
  shows "k \<le> unat c \<Longrightarrow> unat c < N \<Longrightarrow>
     code_loop es past lv c (replicate N (- 1), cmds, cur, p)
       = (if k = 0 then Inr (replicate N (- 1), cmds, cur, p)
          else code_loop es past lv (of_nat k - 1) (replicate N (- 1), cmds, cur, p))"
proof (induction "unat c - k" arbitrary: c)
  case 0
  then have k: "unat c = k" by simp
  from 0(3) assms(3) have "unat c + unat (1 :: code_type) < 2 ^ LENGTH(32)" by simp
  then have "unat (c + 1) = unat c + unat (1 :: code_type)" by (rule unat_add_lem [THEN iffD1])
  then have pos: "c + 1 > 0" by (simp add: word_less_nat_alt)
  have nm: "\<not> (level (es ! p) = lv \<and> code (es ! p) = c)" using assms(2) 0(2) by blast
  have step: "code_loop es past lv c (replicate N (- 1), cmds, cur, p)
      = code_loop es past lv (c - 1) (replicate N (- 1), cmds, cur, p)"
    by (subst code_loop.simps) (simp add: pos cell_miss [OF assms(1) nm 0(3)])
  show ?case
  proof (cases "k = 0")
    case True
    with k have "c = 0" by (simp add: unat_eq_0)
    then have "code_loop es past lv (c - 1) (replicate N (- 1), cmds, cur, p)
        = Inr (replicate N (- 1), cmds, cur, p)"
      by (subst code_loop.simps) simp
    with step True show ?thesis by simp
  next
    case False
    have "of_nat (unat c) = c" by simp
    then have "c = of_nat k" unfolding k by (rule sym)
    with step False show ?thesis by simp
  qed
next
  case (Suc n)
  then have gt: "k < unat c" by simp
  from Suc(4) assms(3) have "unat c + unat (1 :: code_type) < 2 ^ LENGTH(32)" by simp
  then have "unat (c + 1) = unat c + unat (1 :: code_type)" by (rule unat_add_lem [THEN iffD1])
  then have pos: "c + 1 > 0" by (simp add: word_less_nat_alt)
  have nm: "\<not> (level (es ! p) = lv \<and> code (es ! p) = c)" using assms(2) Suc(3) by blast
  have step: "code_loop es past lv c (replicate N (- 1), cmds, cur, p)
      = code_loop es past lv (c - 1) (replicate N (- 1), cmds, cur, p)"
    by (subst code_loop.simps) (simp add: pos cell_miss [OF assms(1) nm Suc(4)])
  have "c \<noteq> 0" using gt by (auto simp add: unat_eq_0)
  then have u: "unat (c - 1) = unat c - 1" by (rule unat_minus_one)
  have "n = unat (c - 1) - k" "k \<le> unat (c - 1)" "unat (c - 1) < N"
    unfolding u using Suc(2) gt Suc(4) by simp_all
  from Suc(1) [OF this] step show ?case by simp
qed

lemma pow8_le: "L \<le> 10 \<Longrightarrow> (8 :: nat) ^ L \<le> 2 ^ 30"
proof -
  assume "L \<le> 10"
  then have "(8 :: nat) ^ L \<le> 8 ^ 10" by (intro power_increasing) simp_all
  then show ?thesis by simp
qed

lemma unat_pow8:
  assumes "L \<le> 10"
  shows "unat (push_bit (3 * L) 1 :: code_type) = 8 ^ L"
proof -
  have "3 * L < 32" using assms by simp
  then have "unat (2 ^ (3 * L) :: code_type) = 2 ^ (3 * L)" by (rule unat_pow2)
  also have "(2 :: nat) ^ (3 * L) = 8 ^ L" by (simp add: power_mult)
  finally show ?thesis by (simp add: push_bit_eq_mult)
qed

lemma unat_pow8_minus:
  assumes "L \<le> 10"
  shows "unat (push_bit (3 * L) 1 - 1 :: code_type) = 8 ^ L - 1"
proof -
  have "unat (push_bit (3 * L) 1 :: code_type) \<noteq> 0" unfolding unat_pow8 [OF assms] by simp
  then have "(push_bit (3 * L) 1 :: code_type) \<noteq> 0" by (simp add: unat_eq_0 del: push_bit_of_1)
  then have "unat (push_bit (3 * L) 1 - 1 :: code_type) = unat (push_bit (3 * L) 1 :: code_type) - 1"
    by (rule unat_minus_one)
  then show ?thesis unfolding unat_pow8 [OF assms] .
qed

lemma unit_sorted_head: "0 < length (unit_sorted L)" "level (unit_sorted L ! 0) = L"
  "code (unit_sorted L ! 0) = 7"
  by (simp_all add: unit_sorted_def unit_entry_def)

lemma level_loop_low:
  assumes "L \<le> 10"
  shows "lv \<le> L \<Longrightarrow>
    level_loop (unit_sorted L) past (L + 1) lv (replicate (8 ^ L) (- 1), [0, 0, 0, 0, 0, 0, 0, 0, 0, 0, 0, 0, 0, 0, 0, 0], 0, 0)
      = level_loop (unit_sorted L) past (L + 1) L (replicate (8 ^ L) (- 1), [0, 0, 0, 0, 0, 0, 0, 0, 0, 0, 0, 0, 0, 0, 0, 0], 0, 0)"
proof (induction "L - lv" arbitrary: lv)
  case 0
  then show ?case by simp
next
  case (Suc n)
  then have lt: "lv < L" by simp
  then have lv: "lv \<le> 10" using assms by simp
  have nm: "\<forall>c'. 0 \<le> unat c' \<longrightarrow>
      \<not> (level (unit_sorted L ! 0) = lv \<and> code (unit_sorted L ! 0) = c')"
    using lt by (simp add: unit_sorted_head)
  have "(8 :: nat) ^ lv < 8 ^ L" using lt by (intro power_strict_increasing) simp_all
  then have c: "unat (push_bit (3 * lv) 1 - 1 :: code_type) < 8 ^ L"
    unfolding unat_pow8_minus [OF lv] by (rule less_imp_diff_less)
  have "code_loop (unit_sorted L) past lv (push_bit (3 * lv) 1 - 1) (replicate (8 ^ L) (- 1), [0, 0, 0, 0, 0, 0, 0, 0, 0, 0, 0, 0, 0, 0, 0, 0], 0, 0)
      = (if (0 :: nat) = 0 then Inr (replicate (8 ^ L) (- 1), [0, 0, 0, 0, 0, 0, 0, 0, 0, 0, 0, 0, 0, 0, 0, 0], 0, 0)
         else code_loop (unit_sorted L) past lv (of_nat 0 - 1) (replicate (8 ^ L) (- 1), [0, 0, 0, 0, 0, 0, 0, 0, 0, 0, 0, 0, 0, 0, 0, 0], 0, 0))"
    by (rule code_loop_skip [OF unit_sorted_head(1) nm pow8_le [OF assms] _ c]) simp
  then have skip: "code_loop (unit_sorted L) past lv (push_bit (3 * lv) 1 - 1) (replicate (8 ^ L) (- 1), [0, 0, 0, 0, 0, 0, 0, 0, 0, 0, 0, 0, 0, 0, 0, 0], 0, 0)
      = Inr (replicate (8 ^ L) (- 1), [0, 0, 0, 0, 0, 0, 0, 0, 0, 0, 0, 0, 0, 0, 0, 0], 0, 0)"
    by (simp only: simp_thms if_True)
  have "\<not> 32 \<le> 3 * lv" "lv < L + 1" using lv lt by simp_all
  then have "level_loop (unit_sorted L) past (L + 1) lv (replicate (8 ^ L) (- 1), [0, 0, 0, 0, 0, 0, 0, 0, 0, 0, 0, 0, 0, 0, 0, 0], 0, 0)
      = level_loop (unit_sorted L) past (L + 1) (Suc lv) (replicate (8 ^ L) (- 1), [0, 0, 0, 0, 0, 0, 0, 0, 0, 0, 0, 0, 0, 0, 0, 0], 0, 0)"
    by (subst level_loop.simps) (simp only: if_True if_False skip sum.case)
  moreover have "n = L - Suc lv" "Suc lv \<le> L" using Suc(2) lt by simp_all
  ultimately show ?case using Suc(1) by simp
qed

lemma level_loop_top:
  assumes "1 \<le> L" "L \<le> 10" "\<not> (level past = L \<and> code past = 0)"
  shows "level_loop (unit_sorted L) past (L + 1) L (replicate (8 ^ L) (- 1), [0, 0, 0, 0, 0, 0, 0, 0, 0, 0, 0, 0, 0, 0, 0, 0], 0, 0)
      = Inr ((replicate (8 ^ L) (- 1))[7 := 0, 6 := 2, 5 := 4, 4 := 6, 3 := 8, 2 := 10, 1 := 12, 0 := 14], [0, - 1, 0, - 1, 0, - 1, 0, - 1, 0, - 1, 0, - 1, 0, - 1, 0, - 1], 16, 8)"
proof -
  have "(8 :: nat) ^ 1 \<le> 8 ^ L" using assms(1) by (intro power_increasing) simp_all
  then have N8: "(8 :: nat) \<le> 8 ^ L" by simp
  note unit = code_loop_unit [OF N8 assms(3)]
  have top: "code_loop (unit_sorted L) past L (push_bit (3 * L) 1 - 1) (replicate (8 ^ L) (- 1), [0, 0, 0, 0, 0, 0, 0, 0, 0, 0, 0, 0, 0, 0, 0, 0], 0, 0)
      = Inr ((replicate (8 ^ L) (- 1))[7 := 0, 6 := 2, 5 := 4, 4 := 6, 3 := 8, 2 := 10, 1 := 12, 0 := 14], [0, - 1, 0, - 1, 0, - 1, 0, - 1, 0, - 1, 0, - 1, 0, - 1, 0, - 1], 16, 8)"
  proof (cases "L = 1")
    case True
    have "(push_bit (3 * 1) 1 - 1 :: code_type) = 7" by simp
    then show ?thesis using unit unfolding True by simp
  next
    case False
    with assms(1) have "2 \<le> L" by simp
    then have "(8 :: nat) ^ 2 \<le> 8 ^ L" by (intro power_increasing) simp_all
    moreover have "(8 :: nat) ^ 2 = 64" by simp
    ultimately have "(64 :: nat) \<le> 8 ^ L" by (simp only:)
    then have "(8 :: nat) \<le> 8 ^ L - 1" by linarith
    then have k: "8 \<le> unat (push_bit (3 * L) 1 - 1 :: code_type)"
      unfolding unat_pow8_minus [OF assms(2)] .
    have "(8 :: nat) ^ L - 1 < 8 ^ L" by simp
    then have c: "unat (push_bit (3 * L) 1 - 1 :: code_type) < 8 ^ L"
      unfolding unat_pow8_minus [OF assms(2)] .
    have nm: "\<forall>c'. 8 \<le> unat c' \<longrightarrow>
        \<not> (level (unit_sorted L ! 0) = L \<and> code (unit_sorted L ! 0) = c')"
      by (auto simp add: unit_sorted_head)
    have "code_loop (unit_sorted L) past L (push_bit (3 * L) 1 - 1) (replicate (8 ^ L) (- 1), [0, 0, 0, 0, 0, 0, 0, 0, 0, 0, 0, 0, 0, 0, 0, 0], 0, 0)
      = (if (8 :: nat) = 0 then Inr (replicate (8 ^ L) (- 1), [0, 0, 0, 0, 0, 0, 0, 0, 0, 0, 0, 0, 0, 0, 0, 0], 0, 0)
         else code_loop (unit_sorted L) past L (of_nat 8 - 1) (replicate (8 ^ L) (- 1), [0, 0, 0, 0, 0, 0, 0, 0, 0, 0, 0, 0, 0, 0, 0, 0], 0, 0))"
      by (rule code_loop_skip [OF unit_sorted_head(1) nm pow8_le [OF assms(2)] k c])
    moreover have "(of_nat 8 - 1 :: code_type) = 7" by simp
    ultimately show ?thesis using unit by simp
  qed
  have fin: "level_loop (unit_sorted L) past (L + 1) (Suc L) ((replicate (8 ^ L) (- 1))[7 := 0, 6 := 2, 5 := 4, 4 := 6, 3 := 8, 2 := 10, 1 := 12, 0 := 14], [0, - 1, 0, - 1, 0, - 1, 0, - 1, 0, - 1, 0, - 1, 0, - 1, 0, - 1], 16, 8)
      = Inr ((replicate (8 ^ L) (- 1))[7 := 0, 6 := 2, 5 := 4, 4 := 6, 3 := 8, 2 := 10, 1 := 12, 0 := 14], [0, - 1, 0, - 1, 0, - 1, 0, - 1, 0, - 1, 0, - 1, 0, - 1, 0, - 1], 16, 8)"
    by (subst level_loop.simps) simp
  have "\<not> 32 \<le> 3 * L" "L < L + 1" using assms(2) by simp_all
  then show ?thesis
    by (subst level_loop.simps) (simp only: if_True if_False top sum.case fin)
qed

lemma unat_max: "unat (max a b :: code_type) = max (unat a) (unat b)"
  by (simp add: max_def word_le_nat_alt)

lemma initialize_unit:
  assumes dims: "\<forall>i<3. 2 \<le> unat (nth3 dims i) \<and> unat (nth3 dims i) \<le> 1024"
    and L: "maxLevel_loop 0 (max (nth3 dims 0) (max (nth3 dims 1) (nth3 dims 2))) = Inr L"
      "1 \<le> L" "L \<le> 10"
    and past: "\<not> (level past = L \<and> code past = 0)"
  shows "initialize dims [unit_box] past
     = Inr \<lparr>numLevels = L + 1, commands = [0, - 1, 0, - 1, 0, - 1, 0, - 1, 0, - 1, 0, - 1, 0, - 1, 0, - 1],
            start_t = (replicate (8 ^ L) (- 1))[7 := 0, 6 := 2, 5 := 4, 4 := 6, 3 := 8, 2 := 10, 1 := 12, 0 := 14]\<rparr>"
proof -
  have len: "\<not> \<not> length [unit_box] < 2147483647 div 16" by simp
  have l32: "\<not> 32 \<le> 3 * L" using L(3) by simp
  have low: "level_loop (unit_sorted L) past (L + 1) 0
      (replicate (8 ^ L) (- 1), [0, 0, 0, 0, 0, 0, 0, 0, 0, 0, 0, 0, 0, 0, 0, 0], 0, 0)
    = level_loop (unit_sorted L) past (L + 1) L
      (replicate (8 ^ L) (- 1), [0, 0, 0, 0, 0, 0, 0, 0, 0, 0, 0, 0, 0, 0, 0, 0], 0, 0)"
    by (rule level_loop_low [OF L(3)]) simp
  show ?thesis
    unfolding initialize_def
    by (simp only: len if_False L(1) bind_e_def sum.case unit_box_entries [OF dims]
        unit_box_sorted Let_def unit_numCommands rep16 l32 unat_pow8 [OF L(3)] low
        level_loop_top [OF L(2,3) past] prod.case)
qed

lemma unit_start_high:
  assumes "8 \<le> n" "n < N"
  shows "(replicate N (- 1 :: command_type))[7 := 0, 6 := 2, 5 := 4, 4 := 6, 3 := 8, 2 := 10, 1 := 12, 0 := 14] ! n = - 1"
  using assms by simp

lemma unit_start_low:
  assumes "8 \<le> N"
  shows "(replicate N (- 1 :: command_type))[7 := 0, 6 := 2, 5 := 4, 4 := 6, 3 := 8, 2 := 10, 1 := 12, 0 := 14]
    ! 0 = 14"
    "(replicate N (- 1 :: command_type))[7 := 0, 6 := 2, 5 := 4, 4 := 6, 3 := 8, 2 := 10, 1 := 12, 0 := 14]
    ! 1 = 12"
    "(replicate N (- 1 :: command_type))[7 := 0, 6 := 2, 5 := 4, 4 := 6, 3 := 8, 2 := 10, 1 := 12, 0 := 14]
    ! 2 = 10"
    "(replicate N (- 1 :: command_type))[7 := 0, 6 := 2, 5 := 4, 4 := 6, 3 := 8, 2 := 10, 1 := 12, 0 := 14]
    ! 3 = 8"
    "(replicate N (- 1 :: command_type))[7 := 0, 6 := 2, 5 := 4, 4 := 6, 3 := 8, 2 := 10, 1 := 12, 0 := 14]
    ! 4 = 6"
    "(replicate N (- 1 :: command_type))[7 := 0, 6 := 2, 5 := 4, 4 := 6, 3 := 8, 2 := 10, 1 := 12, 0 := 14]
    ! 5 = 4"
    "(replicate N (- 1 :: command_type))[7 := 0, 6 := 2, 5 := 4, 4 := 6, 3 := 8, 2 := 10, 1 := 12, 0 := 14]
    ! 6 = 2"
    "(replicate N (- 1 :: command_type))[7 := 0, 6 := 2, 5 := 4, 4 := 6, 3 := 8, 2 := 10, 1 := 12, 0 := 14]
    ! 7 = 0"
  using assms by simp_all

lemma interleave3_pos:
  assumes "x < 2 ^ L" "y < 2 ^ L" "z < 2 ^ L" "\<not> (x = 0 \<and> y = 0 \<and> z = 0)"
  shows "0 < interleave3 L x y z"
proof (rule ccontr)
  assume "\<not> 0 < interleave3 L x y z"
  then have "interleave3 L x y z = interleave3 L 0 0 0" by (simp add: interleave3_zero)
  from interleave3_inj [OF assms(1-3) _ _ _ this] assms(4) show False by simp
qed

lemma half_less: "(x :: nat) < 2 ^ Suc L \<Longrightarrow> x div 2 < 2 ^ L"
  by simp

lemma half_pos: "2 \<le> (x :: nat) \<Longrightarrow> x div 2 \<noteq> 0"
  by simp

lemma interleave3_outside:
  assumes "x < 2 ^ L" "y < 2 ^ L" "z < 2 ^ L" "2 \<le> x \<or> 2 \<le> y \<or> 2 \<le> z"
  shows "8 \<le> interleave3 L x y z"
proof (cases L)
  case 0
  with assms show ?thesis by simp
next
  case (Suc K)
  have h: "x div 2 < 2 ^ K" "y div 2 < 2 ^ K" "z div 2 < 2 ^ K"
    using assms(1-3) unfolding Suc by (simp_all add: half_less)
  have "\<not> (x div 2 = 0 \<and> y div 2 = 0 \<and> z div 2 = 0)"
    using assms(4) half_pos [of x] half_pos [of y] half_pos [of z] by blast
  from interleave3_pos [OF h this] have "1 \<le> interleave3 K (x div 2) (y div 2) (z div 2)"
    by simp
  then have "8 \<le> 8 * interleave3 K (x div 2) (y div 2) (z div 2)" by simp
  then show ?thesis unfolding Suc interleave3.simps by (rule trans_le_add2)
qed

lemma realStart_outside:
  assumes L: "L \<le> 10"
    and c: "unat x < 2 ^ L" "unat y < 2 ^ L" "unat z < 2 ^ L"
    and o: "\<not> (x \<le> 1 \<and> y \<le> 1 \<and> z \<le> 1)"
    and t: "start_t t = (replicate (8 ^ L) (- 1))[7 := 0, 6 := 2, 5 := 4, 4 := 6, 3 := 8, 2 := 10, 1 := 12, 0 := 14]"
  shows "realStart t x y z = Inr (- 1)"
proof -
  have "3 * L < 32" using L by simp
  from makeCode_interleave3 [OF this c] obtain c where m: "makeCode x y z = Inr c"
    and u: "unat c = interleave3 L (unat x) (unat y) (unat z)" by blast
  from o have "2 \<le> unat x \<or> 2 \<le> unat y \<or> 2 \<le> unat z"
    by (auto simp add: word_le_nat_alt)
  from interleave3_outside [OF c this] have 8: "8 \<le> unat c" unfolding u .
  have lt: "unat c < 8 ^ L" unfolding u by (rule interleave3_less)
  have "start_t t ! unat c = - 1" unfolding t by (rule unit_start_high [OF 8 lt])
  moreover have "unat c < length (start_t t)" unfolding t using lt by simp
  ultimately show ?thesis by (simp add: realStart_def m bind_e_def)
qed

lemma word_le_1: "(x :: code_type) \<le> 1 \<Longrightarrow> x = 0 \<or> x = 1"
proof -
  assume "x \<le> 1"
  then have "unat x \<le> 1" by (simp add: word_le_nat_alt)
  then have "unat x = 0 \<or> unat x = 1" by linarith
  then have "unat x = unat (0 :: code_type) \<or> unat x = unat (1 :: code_type)" by simp
  then show ?thesis unfolding word_unat_eq_iff [symmetric] .
qed

lemma realStart_inside:
  assumes N: "1 \<le> L"
    and i: "x \<le> 1" "y \<le> 1" "z \<le> 1"
    and t: "start_t t = (replicate (8 ^ L) (- 1))[7 := 0, 6 := 2, 5 := 4, 4 := 6, 3 := 8, 2 := 10, 1 := 12, 0 := 14]"
      "commands t = [0, - 1, 0, - 1, 0, - 1, 0, - 1, 0, - 1, 0, - 1, 0, - 1, 0, - 1]"
  shows "\<exists>s. realStart t x y z = Inr s \<and> s = 2 * (7 - (x + 2 * y + 4 * z))
     \<and> commands t ! unat s = 0 \<and> commands t ! (unat s + 1) = - 1"
proof -
  have "(8 :: nat) ^ 1 \<le> 8 ^ L" using N by (intro power_increasing) simp_all
  then have N8: "(8 :: nat) \<le> 8 ^ L" by simp
  note low = unit_start_low [OF N8, folded t(1)]
  have len: "length (start_t t) = 8 ^ L" unfolding t(1) by simp
  from word_le_1 [OF i(1)] word_le_1 [OF i(2)] word_le_1 [OF i(3)]
  show ?thesis
    using N8 by (elim disjE)
      (simp_all add: realStart_def makeCode_bits bind_e_def len low low(2) [unfolded One_nat_def] t(2))
qed

text \<open>
  Claim C9, with the commands that the source builds. Take a grid with between 2 and 1024
  vertices on every axis and a single splat (id 0) whose box covers the vertices
  \<open>[0,1] \<times> [0,1] \<times> [0,1]\<close>, and let the element read behind the eight entries not continue
  the last run. Then \<^verbatim>\<open>initialize\<close> succeeds; the command array holds eight runs, one per
  covered cell, each the splat id followed by the terminator \<open>-1\<close>, sixteen commands in all;
  the start entry of the covered cell \<open>(x, y, z)\<close> is \<open>2 * (7 - (x + 2 y + 4 z))\<close>, the offset
  of the run of that cell; and the start entry of every other code, hence of every other
  vertex of the grid, is \<open>-1\<close>.
\<close>

theorem single_splat_tree:
  assumes "\<forall>i<3. 2 \<le> unat (nth3 dims i) \<and> unat (nth3 dims i) \<le> 1024"
  shows "\<exists>L. maxLevel_loop 0 (max (nth3 dims 0) (max (nth3 dims 1) (nth3 dims 2))) = Inr L
     \<and> (\<not> (level past = L \<and> code past = 0) \<longrightarrow>
        (\<exists>t. initialize dims [unit_box] past = Inr t
           \<and> numLevels t = L + 1
           \<and> commands t = [0, - 1, 0, - 1, 0, - 1, 0, - 1, 0, - 1, 0, - 1, 0, - 1, 0, - 1]
           \<and> start_t t = (replicate (8 ^ L) (- 1))[7 := 0, 6 := 2, 5 := 4, 4 := 6, 3 := 8, 2 := 10, 1 := 12, 0 := 14]
           \<and> (\<forall>x y z. x \<le> 1 \<and> y \<le> 1 \<and> z \<le> 1 \<longrightarrow>
                 (\<exists>s. realStart t x y z = Inr s \<and> s = 2 * (7 - (x + 2 * y + 4 * z))
                    \<and> commands t ! unat s = 0 \<and> commands t ! (unat s + 1) = - 1))
           \<and> (\<forall>c. 8 \<le> c \<and> c < 8 ^ L \<longrightarrow> start_t t ! c = - 1)
           \<and> (\<forall>x y z. x < nth3 dims 0 \<and> y < nth3 dims 1 \<and> z < nth3 dims 2
                   \<and> \<not> (x \<le> 1 \<and> y \<le> 1 \<and> z \<le> 1) \<longrightarrow>
                 realStart t x y z = Inr (- 1))))"
proof -
  let ?sz = "max (nth3 dims 0) (max (nth3 dims 1) (nth3 dims 2))"
  from assms have d: "2 \<le> unat (nth3 dims 0)" "unat (nth3 dims 0) \<le> 1024"
    "unat (nth3 dims 1) \<le> 1024" "unat (nth3 dims 2) \<le> 1024" by simp_all
  have sz: "unat ?sz = max (unat (nth3 dims 0)) (max (unat (nth3 dims 1)) (unat (nth3 dims 2)))"
    by (simp only: unat_max)
  have "2 \<le> unat ?sz" "unat ?sz \<le> 1024" unfolding sz using d by simp_all
  from maxLevel_loop_result [OF this] obtain L where L: "maxLevel_loop 0 ?sz = Inr L"
    "1 \<le> L" "L \<le> 10" and le: "unat ?sz \<le> 2 ^ L" by blast
  have b: "unat (nth3 dims 0) \<le> 2 ^ L" "unat (nth3 dims 1) \<le> 2 ^ L" "unat (nth3 dims 2) \<le> 2 ^ L"
    using le unfolding sz by simp_all
  have "\<exists>t. initialize dims [unit_box] past = Inr t
           \<and> numLevels t = L + 1
           \<and> commands t = [0, - 1, 0, - 1, 0, - 1, 0, - 1, 0, - 1, 0, - 1, 0, - 1, 0, - 1]
           \<and> start_t t = (replicate (8 ^ L) (- 1))[7 := 0, 6 := 2, 5 := 4, 4 := 6, 3 := 8, 2 := 10, 1 := 12, 0 := 14]
           \<and> (\<forall>x y z. x \<le> 1 \<and> y \<le> 1 \<and> z \<le> 1 \<longrightarrow>
                 (\<exists>s. realStart t x y z = Inr s \<and> s = 2 * (7 - (x + 2 * y + 4 * z))
                    \<and> commands t ! unat s = 0 \<and> commands t ! (unat s + 1) = - 1))
           \<and> (\<forall>c. 8 \<le> c \<and> c < 8 ^ L \<longrightarrow> start_t t ! c = - 1)
           \<and> (\<forall>x y z. x < nth3 dims 0 \<and> y < nth3 dims 1 \<and> z < nth3 dims 2
                   \<and> \<not> (x \<le> 1 \<and> y \<le> 1 \<and> z \<le> 1) \<longrightarrow>
                 realStart t x y z = Inr (- 1))"
    if past: "\<not> (level past = L \<and> code past = 0)"
  proof -
    define t where "t = \<lparr>numLevels = L + 1, commands = [0, - 1, 0, - 1, 0, - 1, 0, - 1, 0, - 1, 0, - 1, 0, - 1, 0, - 1],
        start_t = (replicate (8 ^ L) (- 1))[7 := 0, 6 := 2, 5 := 4, 4 := 6, 3 := 8, 2 := 10, 1 := 12, 0 := 14]\<rparr>"
    have i: "initialize dims [unit_box] past = Inr t"
      unfolding t_def by (rule initialize_unit [OF assms L past])
    have n: "numLevels t = L + 1" and c: "commands t = [0, - 1, 0, - 1, 0, - 1, 0, - 1, 0, - 1, 0, - 1, 0, - 1, 0, - 1]"
      and s: "start_t t = (replicate (8 ^ L) (- 1))[7 := 0, 6 := 2, 5 := 4, 4 := 6, 3 := 8, 2 := 10, 1 := 12, 0 := 14]"
      by (simp_all add: t_def)
    have inside: "\<exists>s. realStart t x y z = Inr s \<and> s = 2 * (7 - (x + 2 * y + 4 * z))
        \<and> commands t ! unat s = 0 \<and> commands t ! (unat s + 1) = - 1"
      if "x \<le> 1 \<and> y \<le> 1 \<and> z \<le> 1" for x y z
      using that realStart_inside [OF L(2) _ _ _ s c, of x y z] by blast
    have high: "start_t t ! c = - 1" if "8 \<le> c \<and> c < 8 ^ L" for c
      unfolding s using that by (intro unit_start_high) simp_all
    have outside: "realStart t x y z = Inr (- 1)"
      if o: "x < nth3 dims 0 \<and> y < nth3 dims 1 \<and> z < nth3 dims 2
          \<and> \<not> (x \<le> 1 \<and> y \<le> 1 \<and> z \<le> 1)" for x y z
    proof -
      from o have "unat x < unat (nth3 dims 0)" "unat y < unat (nth3 dims 1)"
        "unat z < unat (nth3 dims 2)" by (simp_all add: word_less_nat_alt)
      with b have "unat x < 2 ^ L" "unat y < 2 ^ L" "unat z < 2 ^ L" by simp_all
      from realStart_outside [OF L(3) this _ s] o show ?thesis by blast
    qed
    from i n c s inside high outside show ?thesis by blast
  qed
  with L(1) show ?thesis by blast
qed

theorem single_splat_tree_witness:
  "\<exists>t. initialize (4, 3, 2) [unit_box] zero_entry = Inr t
     \<and> numLevels t = 3
     \<and> commands t = [0, - 1, 0, - 1, 0, - 1, 0, - 1, 0, - 1, 0, - 1, 0, - 1, 0, - 1]
     \<and> length (start_t t) = 64
     \<and> realStart t 0 0 0 = Inr 14 \<and> realStart t 1 1 1 = Inr 0
     \<and> realStart t 3 2 1 = Inr (- 1)"
proof -
  have d: "\<forall>i<3. 2 \<le> unat (nth3 (4 :: code_type, 3 :: code_type, 2 :: code_type) i)
      \<and> unat (nth3 (4 :: code_type, 3 :: code_type, 2 :: code_type) i) \<le> 1024"
    by (simp add: nth3_def)
  have m: "maxLevel_loop 0 (max (nth3 (4 :: code_type, 3, 2) 0)
      (max (nth3 (4 :: code_type, 3, 2) 1) (nth3 (4 :: code_type, 3, 2) 2))) = Inr 2"
    by code_simp
  from single_splat_tree [OF d, of zero_entry] m
  obtain t where t: "initialize (4, 3, 2) [unit_box] zero_entry = Inr t"
    "numLevels t = 3"
    "commands t = [0, - 1, 0, - 1, 0, - 1, 0, - 1, 0, - 1, 0, - 1, 0, - 1, 0, - 1]"
    "start_t t = (replicate (8 ^ 2) (- 1))[7 := 0, 6 := 2, 5 := 4, 4 := 6, 3 := 8, 2 := 10, 1 := 12, 0 := 14]"
    and inside: "\<And>x y z. x \<le> 1 \<and> y \<le> 1 \<and> z \<le> 1 \<Longrightarrow>
        \<exists>s. realStart t x y z = Inr s \<and> s = 2 * (7 - (x + 2 * y + 4 * z))
          \<and> commands t ! unat s = 0 \<and> commands t ! (unat s + 1) = - 1"
    and outside: "\<And>x y z. x < nth3 (4 :: code_type, 3 :: code_type, 2 :: code_type) 0
        \<and> y < nth3 (4 :: code_type, 3 :: code_type, 2 :: code_type) 1
        \<and> z < nth3 (4 :: code_type, 3 :: code_type, 2 :: code_type) 2
        \<and> \<not> (x \<le> 1 \<and> y \<le> 1 \<and> z \<le> 1) \<Longrightarrow> realStart t x y z = Inr (- 1)"
    by (auto simp add: zero_entry_def)
  have "length (start_t t) = 64" unfolding t(4) by simp
  moreover from inside [of 0 0 0] have "realStart t 0 0 0 = Inr 14" by auto
  moreover from inside [of 1 1 1] have "realStart t 1 1 1 = Inr 0" by auto
  moreover from outside [of 3 2 1] have "realStart t 3 2 1 = Inr (- 1)"
    by (simp add: nth3_def word_le_nat_alt word_less_nat_alt)
  ultimately show ?thesis using t(1-3) by blast
qed

text \<open>
  The claim as it is written has the single run \<open>[splatId, -1]\<close> for the whole command array,
  with every start entry pointing at it. On the grid of \<open>2 \<times> 2 \<times> 2\<close> vertices the source
  builds sixteen commands, and the eight start entries point at eight different runs.
\<close>

theorem single_splat_tree_counterexample:
  "initialize (2, 2, 2) [unit_box] zero_entry
     = Inr \<lparr>numLevels = 2, commands = [0, - 1, 0, - 1, 0, - 1, 0, - 1, 0, - 1, 0, - 1, 0, - 1, 0, - 1],
            start_t = [14, 12, 10, 8, 6, 4, 2, 0]\<rparr>
   \<and> [0, - 1, 0, - 1, 0, - 1, 0, - 1, 0, - 1, 0, - 1, 0, - 1, 0, - 1]
       \<noteq> [0, - 1 :: command_type]"
proof
  have d: "\<forall>i<3. 2 \<le> unat (nth3 (2 :: code_type, 2 :: code_type, 2 :: code_type) i)
      \<and> unat (nth3 (2 :: code_type, 2 :: code_type, 2 :: code_type) i) \<le> 1024"
    by (simp add: nth3_def)
  have m: "maxLevel_loop 0 (max (nth3 (2 :: code_type, 2, 2) 0)
      (max (nth3 (2 :: code_type, 2, 2) 1) (nth3 (2 :: code_type, 2, 2) 2))) = Inr 1"
    by code_simp
  have p: "\<not> (level zero_entry = 1 \<and> code zero_entry = 0)" by (simp add: zero_entry_def)
  have s: "(replicate (8 ^ 1) (- 1 :: command_type))[7 := 0, 6 := 2, 5 := 4, 4 := 6, 3 := 8, 2 := 10, 1 := 12, 0 := 14]
      = [14, 12, 10, 8, 6, 4, 2, 0]"
    by (simp add: numeral_eq_Suc)
  have "initialize (2, 2, 2) [unit_box] zero_entry
     = Inr \<lparr>numLevels = 1 + 1, commands = [0, - 1, 0, - 1, 0, - 1, 0, - 1, 0, - 1, 0, - 1, 0, - 1, 0, - 1],
            start_t = (replicate (8 ^ 1) (- 1))[7 := 0, 6 := 2, 5 := 4, 4 := 6, 3 := 8, 2 := 10, 1 := 12, 0 := 14]\<rparr>"
    by (rule initialize_unit [OF d m _ _ p]) simp_all
  then show "initialize (2, 2, 2) [unit_box] zero_entry
     = Inr \<lparr>numLevels = 2, commands = [0, - 1, 0, - 1, 0, - 1, 0, - 1, 0, - 1, 0, - 1, 0, - 1, 0, - 1],
            start_t = [14, 12, 10, 8, 6, 4, 2, 0]\<rparr>"
    unfolding s by simp
  show "[0, - 1, 0, - 1, 0, - 1, 0, - 1, 0, - 1, 0, - 1, 0, - 1, 0, - 1]
       \<noteq> [0, - 1 :: command_type]"
    by simp
qed

section \<open>Properties of merging\<close>

lemma sorted_coalesced_Cons:
  "sorted_coalesced (x # xs) \<longleftrightarrow>
     sorted_coalesced xs \<and> (xs \<noteq> [] \<longrightarrow> fst x \<le> fst (hd xs) \<and> snd x < fst (hd xs))"
  by (cases xs) auto

lemma sorted_coalesced_tl: "sorted_coalesced xs \<Longrightarrow> sorted_coalesced (tl xs)"
  by (cases xs) (auto simp: sorted_coalesced_Cons)

lemma sorted_coalesced_hd_le:
  "sorted_coalesced (x # xs) \<Longrightarrow> r \<in> set xs \<Longrightarrow> fst x \<le> fst r"
proof (induction xs arbitrary: x)
  case Nil
  then show ?case by simp
next
  case (Cons y ys)
  from Cons.prems(1) have xy: "fst x \<le> fst y" and s: "sorted_coalesced (y # ys)" by simp_all
  show ?case
  proof (cases "r = y")
    case True
    with xy show ?thesis by simp
  next
    case False
    with Cons.prems(2) have "r \<in> set ys" by simp
    from Cons.IH [OF s this] xy show ?thesis by (rule order_trans [rotated])
  qed
qed

lemma sorted_coalesced_above:
  assumes "sorted_coalesced xs" "xs = [] \<or> m < fst (hd xs)" "r \<in> set xs"
  shows "m < fst r"
proof (cases xs)
  case Nil
  with assms show ?thesis by simp
next
  case (Cons y ys)
  with assms have "m < fst y" by simp
  moreover have "r = y \<or> fst y \<le> fst r"
    using assms(1,3) Cons sorted_coalesced_hd_le [of y ys r] by auto
  ultimately show ?thesis by auto
qed

lemma covered_Nil: "covered [] = {}" by (simp add: covered_def)
lemma covered_Cons: "covered (r # rs) = {fst r ..< snd r} \<union> covered rs" by (simp add: covered_def)

lemma extend_last_inv:
  assumes "extend_last lst p1 p2 = (l, q1, q2)"
    and "sorted_coalesced p1" "sorted_coalesced p2"
    and "lo \<le> lst" "\<forall>r \<in> set p1 \<union> set p2. lo \<le> fst r"
  shows "lst \<le> l \<and> sorted_coalesced q1 \<and> sorted_coalesced q2
    \<and> set q1 \<subseteq> set p1 \<and> set q2 \<subseteq> set p2
    \<and> (\<forall>r \<in> set q1 \<union> set q2. l < fst r)
    \<and> {lo ..< l} \<union> covered q1 \<union> covered q2 = {lo ..< lst} \<union> covered p1 \<union> covered p2"
  using assms
proof (induction lst p1 p2 rule: extend_last.induct)
  case (1 lst p1 p2)
  show ?case
  proof (cases "p1 \<noteq> [] \<and> fst (hd p1) \<le> lst")
    case True
    then obtain a b t where p1: "p1 = (a, b) # t" by (cases p1) auto
    with True have ale: "a \<le> lst" by simp
    from "1.prems"(5) p1 have loa: "lo \<le> a" by simp
    from "1.prems"(1) True have e: "extend_last (max lst (snd (hd p1))) (tl p1) p2 = (l, q1, q2)"
      by (simp add: extend_last.simps [of lst p1 p2])
    have s: "sorted_coalesced (tl p1)" using "1.prems"(2) by (rule sorted_coalesced_tl)
    have b: "\<forall>r \<in> set (tl p1) \<union> set p2. lo \<le> fst r" using "1.prems"(5) p1 by auto
    have m: "lo \<le> max lst (snd (hd p1))" using "1.prems"(4) by (simp add: max.coboundedI1)
    note IH = "1.IH"(1) [OF True e s "1.prems"(3) m b]
    have cov: "{lo ..< max lst b} = {lo ..< lst} \<union> {a ..< b}"
      using ale loa "1.prems"(4) by (auto simp: max_def)
    from IH show ?thesis using p1 cov by (auto simp: covered_Cons)
  next
    case False
    show ?thesis
    proof (cases "p2 \<noteq> [] \<and> fst (hd p2) \<le> lst")
      case True
      then obtain a b t where p2: "p2 = (a, b) # t" by (cases p2) auto
      with True have ale: "a \<le> lst" by simp
      from "1.prems"(5) p2 have loa: "lo \<le> a" by simp
      from "1.prems"(1) False True have e: "extend_last (max lst (snd (hd p2))) p1 (tl p2) = (l, q1, q2)"
        by (auto simp: extend_last.simps [of lst p1 p2])
      have s: "sorted_coalesced (tl p2)" using "1.prems"(3) by (rule sorted_coalesced_tl)
      have b: "\<forall>r \<in> set p1 \<union> set (tl p2). lo \<le> fst r" using "1.prems"(5) p2 by auto
      have m: "lo \<le> max lst (snd (hd p2))" using "1.prems"(4) by (simp add: max.coboundedI1)
      note IH = "1.IH"(2) [OF False True e "1.prems"(2) s m b]
      have cov: "{lo ..< max lst b} = {lo ..< lst} \<union> {a ..< b}"
        using ale loa "1.prems"(4) by (auto simp: max_def)
      from IH show ?thesis using p2 cov by (auto simp: covered_Cons)
    next
      case F2: False
      from "1.prems"(1) False F2 have eq: "l = lst" "q1 = p1" "q2 = p2"
        by (auto simp: extend_last.simps [of lst p1 p2])
      have "\<forall>r \<in> set p1. lst < fst r"
        using sorted_coalesced_above [OF "1.prems"(2), of lst] False by (auto simp: not_le)
      moreover have "\<forall>r \<in> set p2. lst < fst r"
        using sorted_coalesced_above [OF "1.prems"(3), of lst] F2 by (auto simp: not_le)
      ultimately show ?thesis using eq "1.prems" by auto
    qed
  qed
qed


lemma merge_above:
  "\<forall>r \<in> set p1 \<union> set p2. m < fst r \<Longrightarrow> sorted_coalesced p1 \<Longrightarrow> sorted_coalesced p2
   \<Longrightarrow> \<forall>r \<in> set (merge p1 p2). m < fst r"
proof (induction p1 p2 rule: merge.induct)
  case (1 p1 p2)
  show ?case
  proof (cases "p1 \<noteq> [] \<and> p2 \<noteq> []")
    case False
    then show ?thesis using "1.prems" by (auto simp: merge.simps [of p1 p2])
  next
    case True
    define first where "first = min (fst (hd p1)) (fst (hd p2))"
    obtain l q1 q2 where e: "extend_last first p1 p2 = (l, q1, q2)" by (cases "extend_last first p1 p2") auto
    have mf: "m < first" using True "1.prems"(1) by (cases p1; cases p2) (auto simp: first_def min_def)
    have lb: "\<forall>r \<in> set p1 \<union> set p2. first \<le> fst r"
    proof
      fix r assume "r \<in> set p1 \<union> set p2"
      then show "first \<le> fst r"
      proof
        assume r: "r \<in> set p1"
        obtain y ys where p1: "p1 = y # ys" using True by (cases p1) auto
        have "fst y \<le> fst r" using r p1 sorted_coalesced_hd_le [of y ys r] "1.prems"(2) by auto
        then show ?thesis using p1 by (simp add: first_def min.coboundedI1)
      next
        assume r: "r \<in> set p2"
        obtain y ys where p2: "p2 = y # ys" using True by (cases p2) auto
        have "fst y \<le> fst r" using r p2 sorted_coalesced_hd_le [of y ys r] "1.prems"(3) by auto
        then show ?thesis using p2 by (simp add: first_def min.coboundedI2)
      qed
    qed
    note inv = extend_last_inv [OF e "1.prems"(2,3) order_refl lb]
    have m: "merge p1 p2 = (first, l) # merge q1 q2"
      using True e by (simp add: merge.simps [of p1 p2] first_def Let_def)
    have "\<forall>r \<in> set q1 \<union> set q2. m < fst r" using inv "1.prems"(1) by blast
    from "1.IH" [OF True first_def refl] e inv this
    have "\<forall>r \<in> set (merge q1 q2). m < fst r" by simp
    with m mf show ?thesis by simp
  qed
qed

lemma merge_correct:
  "sorted_coalesced p1 \<Longrightarrow> sorted_coalesced p2
   \<Longrightarrow> sorted_coalesced (merge p1 p2) \<and> covered (merge p1 p2) = covered p1 \<union> covered p2"
proof (induction p1 p2 rule: merge.induct)
  case (1 p1 p2)
  show ?case
  proof (cases "p1 \<noteq> [] \<and> p2 \<noteq> []")
    case False
    then show ?thesis using "1.prems" by (auto simp: merge.simps [of p1 p2] covered_Nil)
  next
    case True
    define first where "first = min (fst (hd p1)) (fst (hd p2))"
    obtain l q1 q2 where e: "extend_last first p1 p2 = (l, q1, q2)" by (cases "extend_last first p1 p2") auto
    have lb: "\<forall>r \<in> set p1 \<union> set p2. first \<le> fst r"
    proof
      fix r assume "r \<in> set p1 \<union> set p2"
      then show "first \<le> fst r"
      proof
        assume r: "r \<in> set p1"
        obtain y ys where p1: "p1 = y # ys" using True by (cases p1) auto
        have "fst y \<le> fst r" using r p1 sorted_coalesced_hd_le [of y ys r] "1.prems"(1) by auto
        then show ?thesis using p1 by (simp add: first_def min.coboundedI1)
      next
        assume r: "r \<in> set p2"
        obtain y ys where p2: "p2 = y # ys" using True by (cases p2) auto
        have "fst y \<le> fst r" using r p2 sorted_coalesced_hd_le [of y ys r] "1.prems"(2) by auto
        then show ?thesis using p2 by (simp add: first_def min.coboundedI2)
      qed
    qed
    note inv = extend_last_inv [OF e "1.prems"(1,2) order_refl lb]
    have m: "merge p1 p2 = (first, l) # merge q1 q2"
      using True e by (simp add: merge.simps [of p1 p2] first_def Let_def)
    from "1.IH" [OF True first_def refl] e inv
    have IH: "sorted_coalesced (merge q1 q2)" "covered (merge q1 q2) = covered q1 \<union> covered q2"
      by simp_all
    have ab: "\<forall>r \<in> set (merge q1 q2). l < fst r"
      using merge_above [of q1 q2 l] inv by blast
    have "sorted_coalesced ((first, l) # merge q1 q2)"
    proof (cases "merge q1 q2")
      case Nil
      then show ?thesis by simp
    next
      case (Cons y ys)
      with ab have "l < fst y" by simp
      moreover have "first \<le> l" using inv by simp
      ultimately show ?thesis using IH(1) Cons by (simp add: sorted_coalesced_Cons)
    qed
    moreover have "covered ((first, l) # merge q1 q2) = covered p1 \<union> covered p2"
    proof -
      have "covered ((first, l) # merge q1 q2) = {first ..< l} \<union> covered q1 \<union> covered q2"
        by (simp add: covered_Cons IH(2) Un_assoc)
      also have "\<dots> = {first ..< first} \<union> covered p1 \<union> covered p2" using inv by simp
      finally show ?thesis by simp
    qed
    ultimately show ?thesis using m by simp
  qed
qed

text \<open>
  Claim C10. For two lists of half-open ranges that are each sorted by first endpoint and
  maximally coalesced, \<^verbatim>\<open>merge\<close> writes a list that is again sorted and maximally coalesced
  (each range ends strictly before the next one starts) and that covers exactly the ids
  covered by the two inputs together.
\<close>

theorem merge_sorted_coalesced_covered:
  assumes "sorted_coalesced p1" and "sorted_coalesced p2"
  shows "sorted_coalesced (merge p1 p2) \<and> covered (merge p1 p2) = covered p1 \<union> covered p2"
  using assms by (rule merge_correct)

theorem merge_sorted_coalesced_covered_witness:
  "sorted_coalesced [(1 :: nat, 3), (5, 7)] \<and> sorted_coalesced [(2 :: nat, 4), (7, 9), (20, 30)]
   \<and> merge [(1 :: nat, 3), (5, 7)] [(2, 4), (7, 9), (20, 30)] = [(1, 4), (5, 9), (20, 30)]
   \<and> sorted_coalesced (merge [(1 :: nat, 3), (5, 7)] [(2, 4), (7, 9), (20, 30)])
   \<and> covered (merge [(1 :: nat, 3), (5, 7)] [(2, 4), (7, 9), (20, 30)])
       = covered [(1, 3), (5, 7)] \<union> covered [(2, 4), (7, 9), (20, 30)]"
proof -
  have a: "sorted_coalesced [(1 :: nat, 3), (5, 7)]" by simp
  have b: "sorted_coalesced [(2 :: nat, 4), (7, 9), (20, 30)]" by simp
  have c: "merge [(1 :: nat, 3), (5, 7)] [(2, 4), (7, 9), (20, 30)] = [(1, 4), (5, 9), (20, 30)]"
    by (simp add: merge.simps extend_last.simps)
  from merge_sorted_coalesced_covered [OF a b] a b c show ?thesis by simp
qed

section \<open>Properties of the progress accounting\<close>





lemma units_le_iff [simp]: "units a \<le> units b \<longleftrightarrow> a \<le> b"
  by (simp add: units_def)

lemma units_less_iff [simp]: "units a < units b \<longleftrightarrow> a < b"
  by (simp add: units_def)



















end
